theory Spec2Isabelle
  imports Main "HOL-Library.Word"
begin

unbundle bit_operations_syntax

section \<open>Token metadata: \<^verbatim>\<open>MetadataConsts\<close> (main.ts, lines 277-289)\<close>

text \<open>
  The enum is embedded constant by constant, with the binary literals of the source.
  JavaScript's bitwise operators work on the 32-bit integer value of their operands, so a
  metadata word is a \<^typ>\<open>32 word\<close>; the unsigned right shift is \<^const>\<open>drop_bit\<close> and its
  result is read unsigned (\<^const>\<open>uint\<close>).
\<close>

definition LANGUAGEID_MASK :: "32 word" where
  "LANGUAGEID_MASK = 0b00000000000000000000000011111111"

definition TOKEN_TYPE_MASK :: "32 word" where
  "TOKEN_TYPE_MASK = 0b00000000000000000000011100000000"

definition FONT_STYLE_MASK :: "32 word" where
  "FONT_STYLE_MASK = 0b00000000000000000011100000000000"

definition FOREGROUND_MASK :: "32 word" where
  "FOREGROUND_MASK = 0b00000000011111111100000000000000"

definition BACKGROUND_MASK :: "32 word" where
  "BACKGROUND_MASK = 0b11111111100000000000000000000000"

definition LANGUAGEID_OFFSET :: nat where
  "LANGUAGEID_OFFSET = 0"

definition TOKEN_TYPE_OFFSET :: nat where
  "TOKEN_TYPE_OFFSET = 8"

definition FONT_STYLE_OFFSET :: nat where
  "FONT_STYLE_OFFSET = 11"

definition FOREGROUND_OFFSET :: nat where
  "FOREGROUND_OFFSET = 14"

definition BACKGROUND_OFFSET :: nat where
  "BACKGROUND_OFFSET = 23"

text \<open>
  The five attributes of a token. In the source they are JavaScript numbers; the claims
  range over integers, so they are \<^typ>\<open>int\<close> here, and \<open>ToInt32\<close> is the conversion
  every bitwise operator applies to an operand.
\<close>

record metadata =
  languageId :: int
  tokenType :: int
  fontStyle :: int
  foreground :: int
  background :: int

definition ToInt32 :: "int \<Rightarrow> 32 word" where
  "ToInt32 n = word_of_int n"

text \<open>
  Modelled from the spec: the encoder and the decoder of the metadata word. The
  source file holds only the constants and, in the comment on \<^verbatim>\<open>tokenizeLine2\<close>, the
  recipe for reading the language id; the functions that build and read a word are in
  grammar.ts, which is not among the sources. Section 4.5 of the specification:
  ``Packing masks each field to its declared width before shifting'' (widths 8, 3, 3, 9
  and 9) and ``Unpacking shifts then masks''.
\<close>

definition pack :: "metadata \<Rightarrow> 32 word" where
  "pack m =
     push_bit LANGUAGEID_OFFSET (ToInt32 (languageId m) AND mask 8)
     OR push_bit TOKEN_TYPE_OFFSET (ToInt32 (tokenType m) AND mask 3)
     OR push_bit FONT_STYLE_OFFSET (ToInt32 (fontStyle m) AND mask 3)
     OR push_bit FOREGROUND_OFFSET (ToInt32 (foreground m) AND mask 9)
     OR push_bit BACKGROUND_OFFSET (ToInt32 (background m) AND mask 9)"

definition unpack :: "32 word \<Rightarrow> metadata" where
  "unpack w = \<lparr>
     languageId = uint (drop_bit LANGUAGEID_OFFSET w AND mask 8),
     tokenType = uint (drop_bit TOKEN_TYPE_OFFSET w AND mask 3),
     fontStyle = uint (drop_bit FONT_STYLE_OFFSET w AND mask 3),
     foreground = uint (drop_bit FOREGROUND_OFFSET w AND mask 9),
     background = uint (drop_bit BACKGROUND_OFFSET w AND mask 9) \<rparr>"

text \<open>
  The recipe of the source's own comment (main.ts, line 244):
  \<^verbatim>\<open>(metadata & MetadataConsts.LANGUAGEID_MASK) >>> MetadataConsts.LANGUAGEID_OFFSET\<close>.
\<close>

definition getLanguageId :: "32 word \<Rightarrow> int" where
  "getLanguageId metadata = uint (drop_bit LANGUAGEID_OFFSET (metadata AND LANGUAGEID_MASK))"


section \<open>The registry: data (main.ts, lines 6-87)\<close>

subsection \<open>What main.ts imports from grammar.ts and types.ts\<close>

text \<open>
  Modelled from the spec: the dependency variants, which main.ts imports from grammar.ts
  (not among the sources). Section 3: \<open>Full(scopeName)\<close> and
  \<open>Partial(scopeName, includePath)\<close>; main.ts reads \<^verbatim>\<open>dep.scopeName\<close> of both and
  \<^verbatim>\<open>dep.include\<close> of the second, and tells them apart with \<^verbatim>\<open>instanceof\<close>.
\<close>

datatype ScopeDependency = FullScopeDependency string | PartialScopeDependency string string

fun dep_scopeName :: "ScopeDependency \<Rightarrow> string" where
  "dep_scopeName (FullScopeDependency scope) = scope"
| "dep_scopeName (PartialScopeDependency scope include) = scope"

text \<open>
  A raw grammar (\<^verbatim>\<open>IRawGrammar\<close> of types.ts, not among the sources). main.ts reads
  only its \<^verbatim>\<open>scopeName\<close>; everything else (patterns, repository) is the type parameter.
\<close>

record 'r IRawGrammar =
  scopeName :: string
  rules :: 'r

text \<open>
  Modelled from the spec: the collector of grammar.ts (not among the sources), of which
  main.ts reads the fields \<^verbatim>\<open>full\<close> and \<^verbatim>\<open>partial\<close> and calls \<^verbatim>\<open>add\<close>. Section 4.2: it
  ``accumulates discovered dependencies'' and ``performs no dedup itself''. A full
  dependency is kept as its scope name, a partial one as its scope name and include
  path, in the order they were added.
\<close>

record ScopeDependencyCollector =
  full :: "string list"
  partial :: "(string \<times> string) list"

definition new_ScopeDependencyCollector :: ScopeDependencyCollector where
  "new_ScopeDependencyCollector = \<lparr>full = [], partial = []\<rparr>"

fun collector_add :: "ScopeDependencyCollector \<Rightarrow> ScopeDependency \<Rightarrow> ScopeDependencyCollector" where
  "collector_add result (FullScopeDependency scope) =
     result\<lparr>full := full result @ [scope]\<rparr>"
| "collector_add result (PartialScopeDependency scope include) =
     result\<lparr>partial := partial result @ [(scope, include)]\<rparr>"

text \<open>
  The two scans and the key of a partial dependency are functions of grammar.ts that
  main.ts calls. They are parameters of the model: any functions of these types.
\<close>

record 'r grammar_ts =
  collectDependencies :: "ScopeDependencyCollector \<Rightarrow> 'r IRawGrammar \<Rightarrow> ScopeDependencyCollector"
  collectSpecificDependencies ::
    "ScopeDependencyCollector \<Rightarrow> 'r IRawGrammar \<Rightarrow> string \<Rightarrow> ScopeDependencyCollector"
  toKey :: "string \<Rightarrow> string \<Rightarrow> string"

text \<open>The key of a partial dependency kept as a pair.\<close>

definition partial_key :: "'r grammar_ts \<Rightarrow> string \<times> string \<Rightarrow> string" where
  "partial_key gm dep = toKey gm (fst dep) (snd dep)"

subsection \<open>The locator (\<^verbatim>\<open>RegistryOptions\<close>, lines 41-46)\<close>

text \<open>
  \<^verbatim>\<open>new Error(message)\<close>, and what awaiting a \<^verbatim>\<open>Thenable\<close> gives: a value or a rejection.
  The loader is a function of the scope name: it does not call back into the registry.
  The theme and \<^verbatim>\<open>getOnigLib\<close> are passed on to the store and play no part in loading.
\<close>

datatype Error = Error string

datatype 'a Thenable = Resolves 'a | Rejects Error

record 'r RegistryOptions =
  loadGrammar :: "string \<Rightarrow> 'r IRawGrammar option Thenable"
  getInjections :: "(string \<Rightarrow> string list) option"

subsection \<open>The store (\<^verbatim>\<open>SyncRegistry\<close> of registry.ts)\<close>

text \<open>
  Modelled from the spec: the grammar store, whose class is in registry.ts (not among the
  sources). Section 6: \<open>addGrammar(rawGrammar, injections)\<close>,
  \<open>lookup(scopeName) -> GrammarHandle|absent\<close>,
  \<open>injections(scopeName) -> sequence<ScopeName>|absent\<close> and
  \<open>grammarForScopeName(scopeName, languageId, embeddedLanguages, tokenTypes)\<close>. A grammar
  is stored under its own scope name. The injection list is optional:
  \<^verbatim>\<open>_doLoadSingleGrammar\<close> passes \<^verbatim>\<open>false\<close> when the locator has no \<^verbatim>\<open>getInjections\<close>, and
  then none is stored.
\<close>

record 'r SyncRegistry =
  rawGrammars :: "string \<rightharpoonup> 'r IRawGrammar"
  injectionGrammars :: "string \<rightharpoonup> string list"

definition new_SyncRegistry :: "'r SyncRegistry" where
  "new_SyncRegistry = \<lparr>rawGrammars = Map.empty, injectionGrammars = Map.empty\<rparr>"

definition SyncRegistry_addGrammar ::
  "'r SyncRegistry \<Rightarrow> 'r IRawGrammar \<Rightarrow> string list option \<Rightarrow> 'r SyncRegistry" where
  "SyncRegistry_addGrammar store grammar injectionScopeNames =
     (case injectionScopeNames of
        None \<Rightarrow> store\<lparr>rawGrammars := (rawGrammars store)(scopeName grammar \<mapsto> grammar)\<rparr>
      | Some injections \<Rightarrow>
          store\<lparr>rawGrammars := (rawGrammars store)(scopeName grammar \<mapsto> grammar),
                injectionGrammars := (injectionGrammars store)(scopeName grammar \<mapsto> injections)\<rparr>)"

definition SyncRegistry_lookup :: "'r SyncRegistry \<Rightarrow> string \<Rightarrow> 'r IRawGrammar option" where
  "SyncRegistry_lookup store scope = rawGrammars store scope"

definition SyncRegistry_injections :: "'r SyncRegistry \<Rightarrow> string \<Rightarrow> string list option" where
  "SyncRegistry_injections store targetScope = injectionGrammars store targetScope"

text \<open>
  Modelled from the spec: the handle that \<open>grammarForScopeName\<close> builds (section 3, ``opaque
  reference to a registered grammar''; section 4.4, built ``using the supplied language
  id and configuration''). The handle records the grammar registered under the scope name
  and the configuration it was asked with.
\<close>

record 'r IGrammar =
  grammar_raw :: "'r IRawGrammar option"
  grammar_initialLanguage :: int
  grammar_embeddedLanguages :: "(string \<times> int) list option"
  grammar_tokenTypes :: "(string \<times> int) list option"

definition SyncRegistry_grammarForScopeName ::
  "'r SyncRegistry \<Rightarrow> string \<Rightarrow> int \<Rightarrow> (string \<times> int) list option \<Rightarrow> (string \<times> int) list option
     \<Rightarrow> 'r IGrammar" where
  "SyncRegistry_grammarForScopeName store scope initialLanguage embeddedLanguages tokenTypes =
     \<lparr>grammar_raw = SyncRegistry_lookup store scope, grammar_initialLanguage = initialLanguage,
      grammar_embeddedLanguages = embeddedLanguages, grammar_tokenTypes = tokenTypes\<rparr>"

subsection \<open>The registry (\<^verbatim>\<open>class Registry\<close>, lines 77-87)\<close>

text \<open>
  \<open>doLoads\<close> lists the calls of \<^verbatim>\<open>_doLoadSingleGrammar\<close> in the order they were made, each
  with the scope name it was called with and the state of the promise it returned. Each
  such call calls the locator's \<^verbatim>\<open>loadGrammar\<close> once, so the list is also the log of the
  loader's calls. A promise is named by its position in the list, and
  \<^verbatim>\<open>_ensureGrammarCache\<close> maps a scope name to a promise.
\<close>

datatype PromiseState = Pending | Fulfilled | Rejected Error

record 'r Registry =
  locator :: "'r RegistryOptions"
  syncRegistry :: "'r SyncRegistry"
  ensureGrammarCache :: "string \<rightharpoonup> nat"
  doLoads :: "(string \<times> PromiseState) list"

text \<open>The constructor (lines 83-87) and its default argument \<^verbatim>\<open>{ loadGrammar: () => null }\<close>.\<close>

definition new_Registry :: "'r RegistryOptions \<Rightarrow> 'r Registry" where
  "new_Registry locator' =
     \<lparr>locator = locator', syncRegistry = new_SyncRegistry, ensureGrammarCache = Map.empty,
      doLoads = []\<rparr>"

definition default_locator :: "'r RegistryOptions" where
  "default_locator = \<lparr>loadGrammar = (\<lambda>_. Resolves None), getInjections = None\<rparr>"

section \<open>Loading one grammar (lines 126-139)\<close>

text \<open>
  The private methods of the source are written with the prefix \<open>p_\<close> for the leading
  underscore. \<^verbatim>\<open>_doLoadSingleGrammar\<close> runs in two parts. The first runs inside the call:
  it calls the loader and returns a pending promise. The second runs when the loader's
  promise has settled: it registers the grammar, if there is one, with the injections the
  locator gives for the scope, and settles the promise. A promise that has settled is not
  settled again.

  The loader is code of the caller, and line 127 calls it inside the first part, after
  the cache was read (line 135) and before it is written (line 136). In
  \<open>p_doLoadSingleGrammar_call\<close> and \<open>p_loadSingleGrammar\<close> the loader returns its thenable
  without calling the registry; \<open>p_doLoadSingleGrammar_nested\<close> and
  \<open>p_loadSingleGrammar_nested\<close> below are the same two methods for a loader that may call
  the registry back before it returns.
\<close>

definition p_doLoadSingleGrammar_call :: "'r Registry \<Rightarrow> string \<Rightarrow> nat \<times> 'r Registry" where
  "p_doLoadSingleGrammar_call reg scope =
     (length (doLoads reg), reg\<lparr>doLoads := doLoads reg @ [(scope, Pending)]\<rparr>)"

definition p_doLoadSingleGrammar_resume :: "'r Registry \<Rightarrow> nat \<Rightarrow> 'r Registry" where
  "p_doLoadSingleGrammar_resume reg p =
     (if p < length (doLoads reg) \<and> snd (doLoads reg ! p) = Pending then
        (let scope = fst (doLoads reg ! p) in
         case loadGrammar (locator reg) scope of
           Rejects e \<Rightarrow> reg\<lparr>doLoads := (doLoads reg)[p := (scope, Rejected e)]\<rparr>
         | Resolves None \<Rightarrow> reg\<lparr>doLoads := (doLoads reg)[p := (scope, Fulfilled)]\<rparr>
         | Resolves (Some grammar) \<Rightarrow>
             (let injections =
                    (case getInjections (locator reg) of
                       None \<Rightarrow> None
                     | Some f \<Rightarrow> Some (f scope))
              in reg\<lparr>syncRegistry :=
                       SyncRegistry_addGrammar (syncRegistry reg) grammar injections,
                     doLoads := (doLoads reg)[p := (scope, Fulfilled)]\<rparr>))
      else reg)"

text \<open>
  \<^verbatim>\<open>_loadSingleGrammar\<close> (lines 134-139) runs without suspending: the cache is read, and on
  a miss \<^verbatim>\<open>_doLoadSingleGrammar\<close> is called and its promise stored. The promise returned
  follows the cached one; the model returns the cached promise.
\<close>

definition p_loadSingleGrammar :: "'r Registry \<Rightarrow> string \<Rightarrow> nat \<times> 'r Registry" where
  "p_loadSingleGrammar reg scope =
     (case ensureGrammarCache reg scope of
        None \<Rightarrow>
          (let (p, reg') = p_doLoadSingleGrammar_call reg scope
           in (p, reg'\<lparr>ensureGrammarCache := (ensureGrammarCache reg')(scope \<mapsto> p)\<rparr>))
      | Some p \<Rightarrow> (p, reg))"

text \<open>
  A loader that calls back. What the loader does before it returns its thenable is given
  by \<open>calls\<close>: from the scope names it has been called with so far and the scope name it
  is called with now, the scope names for which it calls the public \<^verbatim>\<open>loadGrammar\<close> of the
  registry, in order. Such a call runs inside the loader up to its first \<^verbatim>\<open>await\<close>
  (line 176), that is, through \<^verbatim>\<open>_loadSingleGrammar\<close> of that scope name. The nesting of
  calls need not end; \<open>depth\<close> bounds it, and the value is \<open>None\<close> when it is exceeded.
\<close>

type_synonym loader_calls = "string list \<Rightarrow> string \<Rightarrow> string list"

fun p_loadSingleGrammar_nested ::
      "nat \<Rightarrow> loader_calls \<Rightarrow> 'r Registry \<Rightarrow> string \<Rightarrow> (nat \<times> 'r Registry) option"
  and p_doLoadSingleGrammar_nested ::
      "nat \<Rightarrow> loader_calls \<Rightarrow> 'r Registry \<Rightarrow> string \<Rightarrow> (nat \<times> 'r Registry) option"
  and loader_calls_back ::
      "nat \<Rightarrow> loader_calls \<Rightarrow> 'r Registry \<Rightarrow> string list \<Rightarrow> 'r Registry option" where
  "p_loadSingleGrammar_nested depth calls reg scope =
     (case ensureGrammarCache reg scope of
        None \<Rightarrow>
          (case p_doLoadSingleGrammar_nested depth calls reg scope of
             None \<Rightarrow> None
           | Some (p, reg') \<Rightarrow>
               Some (p, reg'\<lparr>ensureGrammarCache := (ensureGrammarCache reg')(scope \<mapsto> p)\<rparr>))
      | Some p \<Rightarrow> Some (p, reg))"
| "p_doLoadSingleGrammar_nested 0 calls reg scope = None"
| "p_doLoadSingleGrammar_nested (Suc depth) calls reg scope =
     (case loader_calls_back depth calls (reg\<lparr>doLoads := doLoads reg @ [(scope, Pending)]\<rparr>)
             (calls (map fst (doLoads reg)) scope) of
        None \<Rightarrow> None
      | Some reg' \<Rightarrow> Some (length (doLoads reg), reg'))"
| "loader_calls_back depth calls reg [] = Some reg"
| "loader_calls_back depth calls reg (scope # scopes) =
     (case p_loadSingleGrammar_nested depth calls reg scope of
        None \<Rightarrow> None
      | Some (p, reg') \<Rightarrow> loader_calls_back depth calls reg' scopes)"

text \<open>
  Line 176, \<^verbatim>\<open>await Promise.all(q.map(request => this._loadSingleGrammar(request.scopeName)))\<close>,
  when nothing else runs in between: the calls are made in the order of \<open>q\<close>, then every
  promise among them that is still pending settles, in the same order, and the await
  throws the first rejection, if there is one. Every promise is taken to settle.
\<close>

fun loadSingleGrammar_each :: "'r Registry \<Rightarrow> string list \<Rightarrow> nat list \<times> 'r Registry" where
  "loadSingleGrammar_each reg [] = ([], reg)"
| "loadSingleGrammar_each reg (scope # scopes) =
     (let (p, reg') = p_loadSingleGrammar reg scope;
          (ps, reg'') = loadSingleGrammar_each reg' scopes
      in (p # ps, reg''))"

fun first_rejection :: "(string \<times> PromiseState) list \<Rightarrow> nat list \<Rightarrow> Error option" where
  "first_rejection loads [] = None"
| "first_rejection loads (p # ps) =
     (if p < length loads then
        (case snd (loads ! p) of
           Rejected e \<Rightarrow> Some e
         | _ \<Rightarrow> first_rejection loads ps)
      else first_rejection loads ps)"

definition await_Promise_all :: "'r Registry \<Rightarrow> string list \<Rightarrow> Error option \<times> 'r Registry" where
  "await_Promise_all reg scopes =
     (let (ps, reg') = loadSingleGrammar_each reg scopes;
          reg'' = foldl p_doLoadSingleGrammar_resume reg' ps
      in (first_rejection (doLoads reg'') ps, reg''))"

section \<open>Resolution (lines 141-207)\<close>

text \<open>\<^verbatim>\<open>_collectDependenciesForDep\<close> (lines 141-162); a \<^verbatim>\<open>throw\<close> is the left summand.\<close>

definition p_collectDependenciesForDep ::
  "'r grammar_ts \<Rightarrow> 'r Registry \<Rightarrow> string \<Rightarrow> ScopeDependencyCollector \<Rightarrow> ScopeDependency
     \<Rightarrow> Error + ScopeDependencyCollector" where
  "p_collectDependenciesForDep gm reg initialScopeName result dep =
     (case SyncRegistry_lookup (syncRegistry reg) (dep_scopeName dep) of
        None \<Rightarrow>
          (if dep_scopeName dep = initialScopeName
           then Inl (Error (''No grammar provided for <'' @ initialScopeName @ ''>''))
           else Inr result)
      | Some grammar \<Rightarrow>
          (let result' =
                 (case dep of
                    FullScopeDependency _ \<Rightarrow> collectDependencies gm result grammar
                  | PartialScopeDependency _ include \<Rightarrow>
                      collectSpecificDependencies gm result grammar include)
           in case SyncRegistry_injections (syncRegistry reg) (dep_scopeName dep) of
                None \<Rightarrow> Inr result'
              | Some injections \<Rightarrow>
                  Inr (foldl (\<lambda>r injection. collector_add r (FullScopeDependency injection))
                         result' injections)))"

text \<open>The loop of lines 179-181 over the batch.\<close>

fun collect_batch ::
  "'r grammar_ts \<Rightarrow> 'r Registry \<Rightarrow> string \<Rightarrow> ScopeDependencyCollector \<Rightarrow> ScopeDependency list
     \<Rightarrow> Error + ScopeDependencyCollector" where
  "collect_batch gm reg initialScopeName deps [] = Inr deps"
| "collect_batch gm reg initialScopeName deps (dep # q) =
     (case p_collectDependenciesForDep gm reg initialScopeName deps dep of
        Inl e \<Rightarrow> Inl e
      | Inr deps' \<Rightarrow> collect_batch gm reg initialScopeName deps' q)"

text \<open>The loops of lines 183-190 and 192-203; \<open>Q'\<close> is the next frontier.\<close>

fun enqueue_full ::
  "string list \<Rightarrow> string set \<Rightarrow> ScopeDependency list \<Rightarrow> string set \<times> ScopeDependency list" where
  "enqueue_full [] seenFull Q' = (seenFull, Q')"
| "enqueue_full (scope # deps) seenFull Q' =
     (if scope \<in> seenFull then enqueue_full deps seenFull Q'
      else enqueue_full deps (insert scope seenFull) (Q' @ [FullScopeDependency scope]))"

fun enqueue_partial ::
  "'r grammar_ts \<Rightarrow> string set \<Rightarrow> (string \<times> string) list \<Rightarrow> string set \<Rightarrow> ScopeDependency list
     \<Rightarrow> string set \<times> ScopeDependency list" where
  "enqueue_partial gm seenFull [] seenPartial Q' = (seenPartial, Q')"
| "enqueue_partial gm seenFull ((scope, include) # deps) seenPartial Q' =
     (if scope \<in> seenFull then enqueue_partial gm seenFull deps seenPartial Q'
      else if toKey gm scope include \<in> seenPartial
        then enqueue_partial gm seenFull deps seenPartial Q'
      else enqueue_partial gm seenFull deps (insert (toKey gm scope include) seenPartial)
             (Q' @ [PartialScopeDependency scope include]))"

text \<open>The variables of \<^verbatim>\<open>_loadGrammar\<close>, together with the registry it works on.\<close>

record 'r resolver_state =
  registry :: "'r Registry"
  seenFullScopeRequests :: "string set"
  seenPartialScopeRequests :: "string set"
  Q :: "ScopeDependency list"

text \<open>One round of the \<^verbatim>\<open>while\<close> loop (lines 173-203). A rejection leaves the registry as
  the loads left it.\<close>

definition loadGrammar_iteration ::
  "'r grammar_ts \<Rightarrow> string \<Rightarrow> 'r resolver_state \<Rightarrow> (Error \<times> 'r Registry) + 'r resolver_state" where
  "loadGrammar_iteration gm initialScopeName st =
     (let q = Q st;
          (rejection, reg) = await_Promise_all (registry st) (map dep_scopeName q)
      in case rejection of
           Some e \<Rightarrow> Inl (e, reg)
         | None \<Rightarrow>
             (case collect_batch gm reg initialScopeName new_ScopeDependencyCollector q of
                Inl e \<Rightarrow> Inl (e, reg)
              | Inr deps \<Rightarrow>
                  (let (seenFull, Q1) = enqueue_full (full deps) (seenFullScopeRequests st) [];
                       (seenPartial, Q2) =
                          enqueue_partial gm seenFull (partial deps)
                            (seenPartialScopeRequests st) Q1
                   in Inr \<lparr>registry = reg, seenFullScopeRequests = seenFull,
                            seenPartialScopeRequests = seenPartial, Q = Q2\<rparr>)))"

text \<open>The loop itself (line 172). It need not end, so its value is an option.\<close>

partial_function (option) loadGrammar_while ::
  "'r grammar_ts \<Rightarrow> string \<Rightarrow> 'r resolver_state
     \<Rightarrow> ((Error \<times> 'r Registry) + 'r resolver_state) option" where
  "loadGrammar_while gm initialScopeName st =
     (if Q st = [] then Some (Inr st)
      else case loadGrammar_iteration gm initialScopeName st of
             Inl failure \<Rightarrow> Some (Inl failure)
           | Inr st' \<Rightarrow> loadGrammar_while gm initialScopeName st')"

declare loadGrammar_while.simps [code]

text \<open>Lines 166-170, and the whole of \<^verbatim>\<open>_loadGrammar\<close> with line 206.\<close>

definition loadGrammar_start :: "'r Registry \<Rightarrow> string \<Rightarrow> 'r resolver_state" where
  "loadGrammar_start reg initialScopeName =
     \<lparr>registry = reg, seenFullScopeRequests = {initialScopeName},
      seenPartialScopeRequests = {}, Q = [FullScopeDependency initialScopeName]\<rparr>"

definition Registry_grammarForScopeName ::
  "'r Registry \<Rightarrow> string \<Rightarrow> int \<Rightarrow> (string \<times> int) list option \<Rightarrow> (string \<times> int) list option
     \<Rightarrow> 'r IGrammar" where
  "Registry_grammarForScopeName reg scope initialLanguage embeddedLanguages tokenTypes =
     SyncRegistry_grammarForScopeName (syncRegistry reg) scope initialLanguage
       embeddedLanguages tokenTypes"

definition p_loadGrammar ::
  "'r grammar_ts \<Rightarrow> 'r Registry \<Rightarrow> string \<Rightarrow> int \<Rightarrow> (string \<times> int) list option
     \<Rightarrow> (string \<times> int) list option \<Rightarrow> ((Error + 'r IGrammar) \<times> 'r Registry) option" where
  "p_loadGrammar gm reg initialScopeName initialLanguage embeddedLanguages tokenTypes =
     (case loadGrammar_while gm initialScopeName (loadGrammar_start reg initialScopeName) of
        None \<Rightarrow> None
      | Some (Inl (e, reg')) \<Rightarrow> Some (Inl e, reg')
      | Some (Inr st) \<Rightarrow>
          Some (Inr (Registry_grammarForScopeName (registry st) initialScopeName
                       initialLanguage embeddedLanguages tokenTypes),
                registry st))"

text \<open>The public \<^verbatim>\<open>loadGrammar\<close> (lines 122-124) and \<^verbatim>\<open>addGrammar\<close> (lines 212-215).\<close>

definition Registry_loadGrammar ::
  "'r grammar_ts \<Rightarrow> 'r Registry \<Rightarrow> string \<Rightarrow> ((Error + 'r IGrammar) \<times> 'r Registry) option" where
  "Registry_loadGrammar gm reg initialScopeName =
     p_loadGrammar gm reg initialScopeName 0 None None"

definition Registry_addGrammar ::
  "'r Registry \<Rightarrow> 'r IRawGrammar \<Rightarrow> string list \<Rightarrow> int \<Rightarrow> (string \<times> int) list option
     \<Rightarrow> 'r IGrammar \<times> 'r Registry" where
  "Registry_addGrammar reg rawGrammar injections initialLanguage embeddedLanguages =
     (let reg' = reg\<lparr>syncRegistry :=
                       SyncRegistry_addGrammar (syncRegistry reg) rawGrammar (Some injections)\<rparr>
      in (Registry_grammarForScopeName reg' (scopeName rawGrammar) initialLanguage
            embeddedLanguages None, reg'))"

section \<open>Interleavings\<close>

text \<open>
  Between two suspension points JavaScript runs one piece of code to its end. Whatever
  callers there are, and however their resolutions interleave, the registry sees a
  sequence of these steps: a call of \<^verbatim>\<open>_loadSingleGrammar\<close>, the second part of a
  \<^verbatim>\<open>_doLoadSingleGrammar\<close>, a call of the public \<^verbatim>\<open>addGrammar\<close>.
\<close>

datatype 'r event =
    Call_loadSingleGrammar string
  | Resume_doLoadSingleGrammar nat
  | Call_addGrammar "'r IRawGrammar" "string list"

fun event_step :: "'r Registry \<Rightarrow> 'r event \<Rightarrow> 'r Registry" where
  "event_step reg (Call_loadSingleGrammar scope) = snd (p_loadSingleGrammar reg scope)"
| "event_step reg (Resume_doLoadSingleGrammar p) = p_doLoadSingleGrammar_resume reg p"
| "event_step reg (Call_addGrammar rawGrammar injections) =
     snd (Registry_addGrammar reg rawGrammar injections 0 None)"

fun run_events :: "'r Registry \<Rightarrow> 'r event list \<Rightarrow> 'r Registry" where
  "run_events reg [] = reg"
| "run_events reg (ev # evs) = run_events (event_step reg ev) evs"




text \<open>The state after \<open>n\<close> rounds of the loop, and everything enqueued up to then.\<close>

fun loadGrammar_iterations ::
  "'r grammar_ts \<Rightarrow> string \<Rightarrow> nat \<Rightarrow> 'r resolver_state
     \<Rightarrow> (Error \<times> 'r Registry) + 'r resolver_state" where
  "loadGrammar_iterations gm initialScopeName 0 st = Inr st"
| "loadGrammar_iterations gm initialScopeName (Suc n) st =
     (case loadGrammar_iteration gm initialScopeName st of
        Inl failure \<Rightarrow> Inl failure
      | Inr st' \<Rightarrow> loadGrammar_iterations gm initialScopeName n st')"

fun enqueued_upto ::
  "'r grammar_ts \<Rightarrow> string \<Rightarrow> nat \<Rightarrow> 'r resolver_state \<Rightarrow> ScopeDependency list" where
  "enqueued_upto gm initialScopeName 0 st = Q st"
| "enqueued_upto gm initialScopeName (Suc n) st =
     Q st @ (case loadGrammar_iteration gm initialScopeName st of
               Inl failure \<Rightarrow> []
             | Inr st' \<Rightarrow> enqueued_upto gm initialScopeName n st')"

text \<open>The keys of the partial dependencies of a frontier, in order.\<close>

fun enqueued_keys :: "'r grammar_ts \<Rightarrow> ScopeDependency list \<Rightarrow> string list" where
  "enqueued_keys gm [] = []"
| "enqueued_keys gm (FullScopeDependency scope # deps) = enqueued_keys gm deps"
| "enqueued_keys gm (PartialScopeDependency scope include # deps) =
     toKey gm scope include # enqueued_keys gm deps"

section \<open>Properties of a registry\<close>


text \<open>
  A finite dependency graph: the scope names \<open>U\<close> and the keys \<open>K\<close> bound what a scan
  of any grammar the registry can hold, and any injection list, can add.
\<close>

definition collector_within ::
  "'r grammar_ts \<Rightarrow> string set \<Rightarrow> string set \<Rightarrow> ScopeDependencyCollector \<Rightarrow> bool" where
  "collector_within gm U K result =
     (set (full result) \<subseteq> U \<and> partial_key gm ` set (partial result) \<subseteq> K)"

definition known_grammars :: "'r Registry \<Rightarrow> 'r IRawGrammar set" where
  "known_grammars reg =
     ran (rawGrammars (syncRegistry reg))
     \<union> {grammar. \<exists>scope. loadGrammar (locator reg) scope = Resolves (Some grammar)}"

definition known_injections :: "'r Registry \<Rightarrow> string set" where
  "known_injections reg =
     \<Union> (set ` ran (injectionGrammars (syncRegistry reg)))
     \<union> (case getInjections (locator reg) of
          None \<Rightarrow> {}
        | Some f \<Rightarrow> \<Union> (range (\<lambda>scope. set (f scope))))"

definition dependencies_within ::
  "'r grammar_ts \<Rightarrow> 'r Registry \<Rightarrow> string set \<Rightarrow> string set \<Rightarrow> bool" where
  "dependencies_within gm reg U K =
     (known_injections reg \<subseteq> U
      \<and> (\<forall>grammar\<in>known_grammars reg. \<forall>result. collector_within gm U K result \<longrightarrow>
            collector_within gm U K (collectDependencies gm result grammar)
            \<and> (\<forall>include.
                 collector_within gm U K (collectSpecificDependencies gm result grammar include))))"

text \<open>No load has been rejected and the loader rejects none.\<close>

definition never_rejects :: "'r Registry \<Rightarrow> bool" where
  "never_rejects reg =
     ((\<forall>scope e. loadGrammar (locator reg) scope \<noteq> Rejects e)
      \<and> (\<forall>load\<in>set (doLoads reg). \<forall>e. snd load \<noteq> Rejected e))"

text \<open>The measure of the loop: the names and keys not yet seen.\<close>

definition unseen :: "string set \<Rightarrow> string set \<Rightarrow> 'r resolver_state \<Rightarrow> nat" where
  "unseen U K st = card (U - seenFullScopeRequests st) + card (K - seenPartialScopeRequests st)"

text \<open>After the first round no load has been rejected, the initial scope is marked as
  seen and is not in the frontier.\<close>

definition past_first_round :: "string \<Rightarrow> 'r resolver_state \<Rightarrow> bool" where
  "past_first_round init st =
     (never_rejects (registry st) \<and> init \<in> seenFullScopeRequests st
      \<and> (\<forall>d\<in>set (Q st). dep_scopeName d \<noteq> init))"




section \<open>A registry to run\<close>

text \<open>
  A grammar here is a list of named rules, each with the dependencies it includes. The
  whole-grammar scan adds the dependencies of every rule, the scan of one rule those of
  that rule. \<open>source.a\<close> includes \<open>source.b\<close> and the rule \<open>stringRule\<close> of \<open>source.c\<close>;
  \<open>source.b\<close> includes \<open>source.a\<close> back; \<open>source.c\<close> has the injection \<open>source.d\<close>, for
  which there is no grammar, and includes \<open>source.e\<close> from a rule that is not asked for.
\<close>

definition example_grammar_ts :: "((string \<times> ScopeDependency list) list) grammar_ts" where
  "example_grammar_ts =
     \<lparr>collectDependencies = (\<lambda>result grammar.
        foldl collector_add result (concat (map snd (rules grammar)))),
      collectSpecificDependencies = (\<lambda>result grammar include.
        foldl collector_add result
          (concat (map snd (filter (\<lambda>rule. fst rule = include) (rules grammar))))),
      toKey = (\<lambda>scope include. scope @ ''#'' @ include)\<rparr>"

definition example_grammars ::
  "string \<Rightarrow> ((string \<times> ScopeDependency list) list) IRawGrammar option" where
  "example_grammars scope =
     (if scope = ''source.a'' then
        Some \<lparr>scopeName = ''source.a'',
              rules = [(''main'', [FullScopeDependency ''source.b'',
                                  PartialScopeDependency ''source.c'' ''stringRule''])]\<rparr>
      else if scope = ''source.b'' then
        Some \<lparr>scopeName = ''source.b'',
              rules = [(''main'', [FullScopeDependency ''source.a''])]\<rparr>
      else if scope = ''source.c'' then
        Some \<lparr>scopeName = ''source.c'',
              rules = [(''stringRule'', []), (''other'', [FullScopeDependency ''source.e''])]\<rparr>
      else None)"

definition example_locator :: "((string \<times> ScopeDependency list) list) RegistryOptions" where
  "example_locator =
     \<lparr>loadGrammar = (\<lambda>scope. Resolves (example_grammars scope)),
      getInjections = Some (\<lambda>scope. if scope = ''source.c'' then [''source.d''] else [])\<rparr>"




text \<open>A run on a registry constructed with no options.\<close>

definition example_default_events :: "((string \<times> ScopeDependency list) list) event list" where
  "example_default_events =
     [Call_addGrammar \<lparr>scopeName = ''source.b'', rules = []\<rparr> [],
      Call_loadSingleGrammar ''source.a'', Resume_doLoadSingleGrammar 0]"


section \<open>Facts about the metadata word\<close>

lemmas MetadataConsts_defs =
  LANGUAGEID_MASK_def TOKEN_TYPE_MASK_def FONT_STYLE_MASK_def FOREGROUND_MASK_def
  BACKGROUND_MASK_def LANGUAGEID_OFFSET_def TOKEN_TYPE_OFFSET_def FONT_STYLE_OFFSET_def
  FOREGROUND_OFFSET_def BACKGROUND_OFFSET_def

text \<open>Each mask is a run of ones of the field's width, moved to the field's offset.\<close>

lemma masks_as_widths:
  "LANGUAGEID_MASK = push_bit LANGUAGEID_OFFSET (mask 8)"
  "TOKEN_TYPE_MASK = push_bit TOKEN_TYPE_OFFSET (mask 3)"
  "FONT_STYLE_MASK = push_bit FONT_STYLE_OFFSET (mask 3)"
  "FOREGROUND_MASK = push_bit FOREGROUND_OFFSET (mask 9)"
  "BACKGROUND_MASK = push_bit BACKGROUND_OFFSET (mask 9)"
  by (simp_all add: MetadataConsts_defs mask_eq_exp_minus_1)

lemma mask_bits:
  "bit LANGUAGEID_MASK i = (i \<le> 7)"
  "bit TOKEN_TYPE_MASK i = (8 \<le> i \<and> i \<le> 10)"
  "bit FONT_STYLE_MASK i = (11 \<le> i \<and> i \<le> 13)"
  "bit FOREGROUND_MASK i = (14 \<le> i \<and> i \<le> 22)"
  "bit BACKGROUND_MASK i = (23 \<le> i \<and> i \<le> 31)"
  unfolding masks_as_widths unfolding MetadataConsts_defs
  by (auto simp add: bit_simps)

lemma masks_disjoint:
  "LANGUAGEID_MASK AND TOKEN_TYPE_MASK = 0"
  "LANGUAGEID_MASK AND FONT_STYLE_MASK = 0"
  "LANGUAGEID_MASK AND FOREGROUND_MASK = 0"
  "LANGUAGEID_MASK AND BACKGROUND_MASK = 0"
  "TOKEN_TYPE_MASK AND FONT_STYLE_MASK = 0"
  "TOKEN_TYPE_MASK AND FOREGROUND_MASK = 0"
  "TOKEN_TYPE_MASK AND BACKGROUND_MASK = 0"
  "FONT_STYLE_MASK AND FOREGROUND_MASK = 0"
  "FONT_STYLE_MASK AND BACKGROUND_MASK = 0"
  "FOREGROUND_MASK AND BACKGROUND_MASK = 0"
  by (rule bit_word_eqI, simp add: bit_simps mask_bits)+

lemma masks_cover:
  "LANGUAGEID_MASK OR TOKEN_TYPE_MASK OR FONT_STYLE_MASK OR FOREGROUND_MASK OR BACKGROUND_MASK
     = - 1"
  by (rule bit_word_eqI) (auto simp add: bit_simps mask_bits)

text \<open>What \<^const>\<open>pack\<close> leaves in each field depends on that field alone.\<close>

lemma pack_field:
  "drop_bit LANGUAGEID_OFFSET (pack m) AND mask 8 = ToInt32 (languageId m) AND mask 8"
  "drop_bit TOKEN_TYPE_OFFSET (pack m) AND mask 3 = ToInt32 (tokenType m) AND mask 3"
  "drop_bit FONT_STYLE_OFFSET (pack m) AND mask 3 = ToInt32 (fontStyle m) AND mask 3"
  "drop_bit FOREGROUND_OFFSET (pack m) AND mask 9 = ToInt32 (foreground m) AND mask 9"
  "drop_bit BACKGROUND_OFFSET (pack m) AND mask 9 = ToInt32 (background m) AND mask 9"
  unfolding pack_def MetadataConsts_defs
  by (rule bit_word_eqI, auto simp add: bit_simps)+

lemma pack_under_mask:
  "pack m AND LANGUAGEID_MASK = push_bit LANGUAGEID_OFFSET (ToInt32 (languageId m) AND mask 8)"
  "pack m AND TOKEN_TYPE_MASK = push_bit TOKEN_TYPE_OFFSET (ToInt32 (tokenType m) AND mask 3)"
  "pack m AND FONT_STYLE_MASK = push_bit FONT_STYLE_OFFSET (ToInt32 (fontStyle m) AND mask 3)"
  "pack m AND FOREGROUND_MASK = push_bit FOREGROUND_OFFSET (ToInt32 (foreground m) AND mask 9)"
  "pack m AND BACKGROUND_MASK = push_bit BACKGROUND_OFFSET (ToInt32 (background m) AND mask 9)"
  unfolding pack_def masks_as_widths unfolding MetadataConsts_defs
  by (rule bit_word_eqI, auto simp add: bit_simps)+

lemma uint_in_range:
  "0 \<le> x \<Longrightarrow> x < 2 ^ n \<Longrightarrow> n \<le> 32 \<Longrightarrow> uint (ToInt32 x AND mask n) = x"
  unfolding ToInt32_def
  by (simp add: unsigned_take_bit_eq uint_word_of_int_eq take_bit_int_eq_self min_def
      flip: take_bit_eq_mask)

text \<open>Shifting and then masking to the width reads the same bits as the source's recipe,
  masking in place with the enum's mask and then shifting.\<close>

lemma mask_then_shift:
  "drop_bit LANGUAGEID_OFFSET (w AND LANGUAGEID_MASK) = drop_bit LANGUAGEID_OFFSET w AND mask 8"
  "drop_bit TOKEN_TYPE_OFFSET (w AND TOKEN_TYPE_MASK) = drop_bit TOKEN_TYPE_OFFSET w AND mask 3"
  "drop_bit FONT_STYLE_OFFSET (w AND FONT_STYLE_MASK) = drop_bit FONT_STYLE_OFFSET w AND mask 3"
  "drop_bit FOREGROUND_OFFSET (w AND FOREGROUND_MASK) = drop_bit FOREGROUND_OFFSET w AND mask 9"
  "drop_bit BACKGROUND_OFFSET (w AND BACKGROUND_MASK) = drop_bit BACKGROUND_OFFSET w AND mask 9"
  unfolding masks_as_widths unfolding MetadataConsts_defs
  by (rule bit_word_eqI, auto simp add: bit_simps)+

lemma getLanguageId_unpack: "getLanguageId w = languageId (unpack w)"
  unfolding getLanguageId_def mask_then_shift by (simp add: unpack_def)

lemma unpack_in_range:
  assumes "0 \<le> languageId m" "languageId m \<le> 255"
    and "0 \<le> tokenType m" "tokenType m \<le> 7"
    and "0 \<le> fontStyle m" "fontStyle m \<le> 7"
    and "0 \<le> foreground m" "foreground m \<le> 511"
    and "0 \<le> background m" "background m \<le> 511"
  shows "unpack (pack m) = m"
proof -
  have "uint (ToInt32 (languageId m) AND mask 8) = languageId m"
    using assms by (intro uint_in_range) simp_all
  moreover have "uint (ToInt32 (tokenType m) AND mask 3) = tokenType m"
    using assms by (intro uint_in_range) simp_all
  moreover have "uint (ToInt32 (fontStyle m) AND mask 3) = fontStyle m"
    using assms by (intro uint_in_range) simp_all
  moreover have "uint (ToInt32 (foreground m) AND mask 9) = foreground m"
    using assms by (intro uint_in_range) simp_all
  moreover have "uint (ToInt32 (background m) AND mask 9) = background m"
    using assms by (intro uint_in_range) simp_all
  ultimately show ?thesis
    by (simp add: unpack_def pack_field)
qed


text \<open>
  Claim C5. Round trip of the metadata codec: for a language id in 0..255, a token type
  among 0, 1, 2 and 4, a font style in 0..7 and colour indices in 0..511, unpacking the
  packed word (shift by the field's offset, then mask) gives back the five fields, and so
  does reading each field with its mask and offset of \<^verbatim>\<open>MetadataConsts\<close>.
\<close>

theorem metadata_round_trip:
  assumes "0 \<le> languageId m \<and> languageId m \<le> 255"
    and "tokenType m \<in> {0, 1, 2, 4}"
    and "0 \<le> fontStyle m \<and> fontStyle m \<le> 7"
    and "0 \<le> foreground m \<and> foreground m \<le> 511"
    and "0 \<le> background m \<and> background m \<le> 511"
  shows "unpack (pack m) = m
    \<and> uint (drop_bit LANGUAGEID_OFFSET (pack m AND LANGUAGEID_MASK)) = languageId m
    \<and> uint (drop_bit TOKEN_TYPE_OFFSET (pack m AND TOKEN_TYPE_MASK)) = tokenType m
    \<and> uint (drop_bit FONT_STYLE_OFFSET (pack m AND FONT_STYLE_MASK)) = fontStyle m
    \<and> uint (drop_bit FOREGROUND_OFFSET (pack m AND FOREGROUND_MASK)) = foreground m
    \<and> uint (drop_bit BACKGROUND_OFFSET (pack m AND BACKGROUND_MASK)) = background m"
proof -
  from assms(2) have "0 \<le> tokenType m" "tokenType m \<le> 7"
    by auto
  with assms(1,3,4,5) have r: "unpack (pack m) = m"
    by (intro unpack_in_range) simp_all
  have "unpack (pack m)
      = \<lparr>languageId = uint (drop_bit LANGUAGEID_OFFSET (pack m AND LANGUAGEID_MASK)),
         tokenType = uint (drop_bit TOKEN_TYPE_OFFSET (pack m AND TOKEN_TYPE_MASK)),
         fontStyle = uint (drop_bit FONT_STYLE_OFFSET (pack m AND FONT_STYLE_MASK)),
         foreground = uint (drop_bit FOREGROUND_OFFSET (pack m AND FOREGROUND_MASK)),
         background = uint (drop_bit BACKGROUND_OFFSET (pack m AND BACKGROUND_MASK))\<rparr>"
    unfolding mask_then_shift by (simp add: unpack_def)
  with r have "m
      = \<lparr>languageId = uint (drop_bit LANGUAGEID_OFFSET (pack m AND LANGUAGEID_MASK)),
         tokenType = uint (drop_bit TOKEN_TYPE_OFFSET (pack m AND TOKEN_TYPE_MASK)),
         fontStyle = uint (drop_bit FONT_STYLE_OFFSET (pack m AND FONT_STYLE_MASK)),
         foreground = uint (drop_bit FOREGROUND_OFFSET (pack m AND FOREGROUND_MASK)),
         background = uint (drop_bit BACKGROUND_OFFSET (pack m AND BACKGROUND_MASK))\<rparr>"
    by simp
  then have "languageId m = uint (drop_bit LANGUAGEID_OFFSET (pack m AND LANGUAGEID_MASK))
    \<and> tokenType m = uint (drop_bit TOKEN_TYPE_OFFSET (pack m AND TOKEN_TYPE_MASK))
    \<and> fontStyle m = uint (drop_bit FONT_STYLE_OFFSET (pack m AND FONT_STYLE_MASK))
    \<and> foreground m = uint (drop_bit FOREGROUND_OFFSET (pack m AND FOREGROUND_MASK))
    \<and> background m = uint (drop_bit BACKGROUND_OFFSET (pack m AND BACKGROUND_MASK))"
    by (metis metadata.select_convs)
  with r show ?thesis
    by simp
qed

theorem metadata_round_trip_witness:
  "unpack (pack \<lparr>languageId = 255, tokenType = 4, fontStyle = 7, foreground = 511,
      background = 300\<rparr>)
   = \<lparr>languageId = 255, tokenType = 4, fontStyle = 7, foreground = 511, background = 300\<rparr>
   \<and> uint (drop_bit BACKGROUND_OFFSET
        (pack \<lparr>languageId = 255, tokenType = 4, fontStyle = 7, foreground = 511,
           background = 300\<rparr> AND BACKGROUND_MASK)) = 300"
  using metadata_round_trip
    [of "\<lparr>languageId = 255, tokenType = 4, fontStyle = 7, foreground = 511, background = 300\<rparr>"]
  by simp


text \<open>
  Claim C6. The bit layout of \<^verbatim>\<open>MetadataConsts\<close>: the language id has mask 0xFF and
  offset 0 (bits 0-7), the token type mask 0x700 and offset 8 (bits 8-10), the font style
  mask 0x3800 and offset 11 (bits 11-13), the foreground mask 0x7FC000 and offset 14
  (bits 14-22), the background mask 0xFF800000 and offset 23 (bits 23-31). Each mask is a
  run of 8, 3, 3, 9 and 9 ones at its offset, and no two masks share a bit.
\<close>

theorem MetadataConsts_layout:
  "(LANGUAGEID_MASK = 0xFF \<and> LANGUAGEID_OFFSET = 0
      \<and> TOKEN_TYPE_MASK = 0x700 \<and> TOKEN_TYPE_OFFSET = 8
      \<and> FONT_STYLE_MASK = 0x3800 \<and> FONT_STYLE_OFFSET = 11
      \<and> FOREGROUND_MASK = 0x7FC000 \<and> FOREGROUND_OFFSET = 14
      \<and> BACKGROUND_MASK = 0xFF800000 \<and> BACKGROUND_OFFSET = 23)
   \<and> (\<forall>i. bit LANGUAGEID_MASK i = (i \<le> 7))
   \<and> (\<forall>i. bit TOKEN_TYPE_MASK i = (8 \<le> i \<and> i \<le> 10))
   \<and> (\<forall>i. bit FONT_STYLE_MASK i = (11 \<le> i \<and> i \<le> 13))
   \<and> (\<forall>i. bit FOREGROUND_MASK i = (14 \<le> i \<and> i \<le> 22))
   \<and> (\<forall>i. bit BACKGROUND_MASK i = (23 \<le> i \<and> i \<le> 31))
   \<and> (LANGUAGEID_MASK = push_bit LANGUAGEID_OFFSET (mask 8)
      \<and> TOKEN_TYPE_MASK = push_bit TOKEN_TYPE_OFFSET (mask 3)
      \<and> FONT_STYLE_MASK = push_bit FONT_STYLE_OFFSET (mask 3)
      \<and> FOREGROUND_MASK = push_bit FOREGROUND_OFFSET (mask 9)
      \<and> BACKGROUND_MASK = push_bit BACKGROUND_OFFSET (mask 9))
   \<and> (LANGUAGEID_MASK AND TOKEN_TYPE_MASK = 0 \<and> LANGUAGEID_MASK AND FONT_STYLE_MASK = 0
      \<and> LANGUAGEID_MASK AND FOREGROUND_MASK = 0 \<and> LANGUAGEID_MASK AND BACKGROUND_MASK = 0
      \<and> TOKEN_TYPE_MASK AND FONT_STYLE_MASK = 0 \<and> TOKEN_TYPE_MASK AND FOREGROUND_MASK = 0
      \<and> TOKEN_TYPE_MASK AND BACKGROUND_MASK = 0 \<and> FONT_STYLE_MASK AND FOREGROUND_MASK = 0
      \<and> FONT_STYLE_MASK AND BACKGROUND_MASK = 0 \<and> FOREGROUND_MASK AND BACKGROUND_MASK = 0)
   \<and> LANGUAGEID_MASK OR TOKEN_TYPE_MASK OR FONT_STYLE_MASK OR FOREGROUND_MASK
        OR BACKGROUND_MASK = - 1"
proof -
  have literal:
    "LANGUAGEID_MASK = 0xFF \<and> LANGUAGEID_OFFSET = 0
      \<and> TOKEN_TYPE_MASK = 0x700 \<and> TOKEN_TYPE_OFFSET = 8
      \<and> FONT_STYLE_MASK = 0x3800 \<and> FONT_STYLE_OFFSET = 11
      \<and> FOREGROUND_MASK = 0x7FC000 \<and> FOREGROUND_OFFSET = 14
      \<and> BACKGROUND_MASK = 0xFF800000 \<and> BACKGROUND_OFFSET = 23"
    by (simp add: MetadataConsts_defs)
  show ?thesis
    using literal masks_as_widths masks_disjoint masks_cover
    by (simp only: mask_bits simp_thms)
qed


text \<open>
  Claim C7. An out-of-range field does not reach the bits of the other fields: the bits
  of the packed word outside a field's mask are the same whatever value that field has
  (300 as a language id, for one), and the bits under a field's mask are that field's
  value cut to its width.
\<close>

theorem pack_out_of_range_isolated:
  "pack (m\<lparr>languageId := x\<rparr>) AND NOT LANGUAGEID_MASK = pack m AND NOT LANGUAGEID_MASK
   \<and> pack (m\<lparr>tokenType := x\<rparr>) AND NOT TOKEN_TYPE_MASK = pack m AND NOT TOKEN_TYPE_MASK
   \<and> pack (m\<lparr>fontStyle := x\<rparr>) AND NOT FONT_STYLE_MASK = pack m AND NOT FONT_STYLE_MASK
   \<and> pack (m\<lparr>foreground := x\<rparr>) AND NOT FOREGROUND_MASK = pack m AND NOT FOREGROUND_MASK
   \<and> pack (m\<lparr>background := x\<rparr>) AND NOT BACKGROUND_MASK = pack m AND NOT BACKGROUND_MASK
   \<and> tokenType (unpack (pack (m\<lparr>languageId := 300\<rparr>))) = tokenType (unpack (pack m))
   \<and> pack m AND LANGUAGEID_MASK
        = push_bit LANGUAGEID_OFFSET (ToInt32 (languageId m) AND mask 8)
   \<and> pack m AND TOKEN_TYPE_MASK
        = push_bit TOKEN_TYPE_OFFSET (ToInt32 (tokenType m) AND mask 3)
   \<and> pack m AND FONT_STYLE_MASK
        = push_bit FONT_STYLE_OFFSET (ToInt32 (fontStyle m) AND mask 3)
   \<and> pack m AND FOREGROUND_MASK
        = push_bit FOREGROUND_OFFSET (ToInt32 (foreground m) AND mask 9)
   \<and> pack m AND BACKGROUND_MASK
        = push_bit BACKGROUND_OFFSET (ToInt32 (background m) AND mask 9)"
proof -
  have l: "pack (m\<lparr>languageId := x\<rparr>) AND NOT LANGUAGEID_MASK = pack m AND NOT LANGUAGEID_MASK"
    unfolding pack_def masks_as_widths unfolding MetadataConsts_defs
    by (rule bit_word_eqI) (auto simp add: bit_simps)
  have t: "pack (m\<lparr>tokenType := x\<rparr>) AND NOT TOKEN_TYPE_MASK = pack m AND NOT TOKEN_TYPE_MASK"
    unfolding pack_def masks_as_widths unfolding MetadataConsts_defs
    by (rule bit_word_eqI) (auto simp add: bit_simps)
  have f: "pack (m\<lparr>fontStyle := x\<rparr>) AND NOT FONT_STYLE_MASK = pack m AND NOT FONT_STYLE_MASK"
    unfolding pack_def masks_as_widths unfolding MetadataConsts_defs
    by (rule bit_word_eqI) (auto simp add: bit_simps)
  have fg: "pack (m\<lparr>foreground := x\<rparr>) AND NOT FOREGROUND_MASK = pack m AND NOT FOREGROUND_MASK"
    unfolding pack_def masks_as_widths unfolding MetadataConsts_defs
    by (rule bit_word_eqI) (auto simp add: bit_simps)
  have bg: "pack (m\<lparr>background := x\<rparr>) AND NOT BACKGROUND_MASK = pack m AND NOT BACKGROUND_MASK"
    unfolding pack_def masks_as_widths unfolding MetadataConsts_defs
    by (rule bit_word_eqI) (auto simp add: bit_simps)
  have u: "tokenType (unpack (pack (m\<lparr>languageId := 300\<rparr>))) = tokenType (unpack (pack m))"
    by (simp add: unpack_def pack_field)
  show ?thesis
    using l t f fg bg u by (simp only: pack_under_mask simp_thms)
qed


section \<open>Facts about the load cache\<close>


lemma loadSingleGrammar_cached:
  "ensureGrammarCache reg scope = Some p \<Longrightarrow> p_loadSingleGrammar reg scope = (p, reg)"
  by (simp add: p_loadSingleGrammar_def)

lemma loadSingleGrammar_fresh:
  "ensureGrammarCache reg scope = None \<Longrightarrow>
   p_loadSingleGrammar reg scope =
     (length (doLoads reg),
      reg\<lparr>doLoads := doLoads reg @ [(scope, Pending)],
          ensureGrammarCache := (ensureGrammarCache reg)(scope \<mapsto> length (doLoads reg))\<rparr>)"
  by (simp add: p_loadSingleGrammar_def p_doLoadSingleGrammar_call_def)



lemma resume_fields:
  "ensureGrammarCache (p_doLoadSingleGrammar_resume reg p) = ensureGrammarCache reg"
  "map fst (doLoads (p_doLoadSingleGrammar_resume reg p)) = map fst (doLoads reg)"
  "locator (p_doLoadSingleGrammar_resume reg p) = locator reg"
  by (auto simp add: p_doLoadSingleGrammar_resume_def Let_def map_update list_eq_iff_nth_eq
      nth_list_update split: Thenable.splits option.splits)



lemma addGrammar_fields:
  "ensureGrammarCache (snd (Registry_addGrammar reg g injs lang emb)) = ensureGrammarCache reg"
  "doLoads (snd (Registry_addGrammar reg g injs lang emb)) = doLoads reg"
  "locator (snd (Registry_addGrammar reg g injs lang emb)) = locator reg"
  by (simp_all add: Registry_addGrammar_def Let_def)









section \<open>A resolution as a sequence of steps\<close>


















section \<open>Facts about one round of the loop\<close>

lemma enqueue_full_result:
  "\<exists>new. enqueue_full deps seenFull Q' = (seenFull \<union> set deps, Q' @ map FullScopeDependency new)
     \<and> distinct new \<and> set new = set deps - seenFull"
proof (induction deps arbitrary: seenFull Q')
  case Nil
  then show ?case by simp
next
  case (Cons scope deps)
  show ?case
  proof (cases "scope \<in> seenFull")
    case True
    from Cons.IH[of seenFull Q'] obtain new where
      "enqueue_full deps seenFull Q' = (seenFull \<union> set deps, Q' @ map FullScopeDependency new)"
      "distinct new" "set new = set deps - seenFull"
      by blast
    with True show ?thesis
      by (intro exI[of _ new]) auto
  next
    case False
    from Cons.IH[of "insert scope seenFull" "Q' @ [FullScopeDependency scope]"] obtain new where
      "enqueue_full deps (insert scope seenFull) (Q' @ [FullScopeDependency scope])
         = (insert scope seenFull \<union> set deps,
            (Q' @ [FullScopeDependency scope]) @ map FullScopeDependency new)"
      "distinct new" "set new = set deps - insert scope seenFull"
      by blast
    with False show ?thesis
      by (intro exI[of _ "scope # new"]) auto
  qed
qed

lemma enqueue_partial_result:
  "\<exists>new. enqueue_partial gm seenFull deps seenPartial Q'
       = (seenPartial \<union> partial_key gm ` set new,
          Q' @ map (\<lambda>(scope, include). PartialScopeDependency scope include) new)
     \<and> distinct (map (partial_key gm) new)
     \<and> (\<forall>d\<in>set new. d \<in> set deps \<and> fst d \<notin> seenFull \<and> partial_key gm d \<notin> seenPartial)
     \<and> (\<forall>d\<in>set deps. fst d \<notin> seenFull \<longrightarrow>
           partial_key gm d \<in> seenPartial \<union> partial_key gm ` set new)"
proof (induction deps arbitrary: seenPartial Q')
  case Nil
  show ?case by (rule exI[of _ "[]"]) simp
next
  case (Cons dep deps)
  obtain scope inc where dep: "dep = (scope, inc)"
    by (cases dep)
  let ?k = "toKey gm scope inc"
  have k: "partial_key gm dep = ?k"
    by (simp add: partial_key_def dep)
  show ?case
  proof (cases "scope \<in> seenFull \<or> ?k \<in> seenPartial")
    case True
    from Cons.IH[of seenPartial Q'] obtain new where
      e: "enqueue_partial gm seenFull deps seenPartial Q'
       = (seenPartial \<union> partial_key gm ` set new,
          Q' @ map (\<lambda>(scope, inc). PartialScopeDependency scope inc) new)"
      and d: "distinct (map (partial_key gm) new)"
      and n: "\<forall>d\<in>set new. d \<in> set deps \<and> fst d \<notin> seenFull \<and> partial_key gm d \<notin> seenPartial"
      and c: "\<forall>d\<in>set deps. fst d \<notin> seenFull \<longrightarrow>
           partial_key gm d \<in> seenPartial \<union> partial_key gm ` set new"
      by blast
    have step: "enqueue_partial gm seenFull (dep # deps) seenPartial Q'
        = enqueue_partial gm seenFull deps seenPartial Q'"
      using True dep by auto
    have c': "\<forall>d\<in>set (dep # deps). fst d \<notin> seenFull \<longrightarrow>
           partial_key gm d \<in> seenPartial \<union> partial_key gm ` set new"
      using c True k dep by auto
    have n': "\<forall>d\<in>set new. d \<in> set (dep # deps) \<and> fst d \<notin> seenFull
          \<and> partial_key gm d \<notin> seenPartial"
      using n by simp
    show ?thesis
    proof (intro exI[of _ new] conjI)
      show "enqueue_partial gm seenFull (dep # deps) seenPartial Q'
       = (seenPartial \<union> partial_key gm ` set new,
          Q' @ map (\<lambda>(scope, inc). PartialScopeDependency scope inc) new)"
        unfolding step by (rule e)
    qed (rule d n' c')+
  next
    case False
    from Cons.IH[of "insert ?k seenPartial" "Q' @ [PartialScopeDependency scope inc]"]
    obtain new where
      e: "enqueue_partial gm seenFull deps (insert ?k seenPartial)
           (Q' @ [PartialScopeDependency scope inc])
       = (insert ?k seenPartial \<union> partial_key gm ` set new,
          (Q' @ [PartialScopeDependency scope inc])
            @ map (\<lambda>(scope, inc). PartialScopeDependency scope inc) new)"
      and d: "distinct (map (partial_key gm) new)"
      and n: "\<forall>d\<in>set new. d \<in> set deps \<and> fst d \<notin> seenFull
            \<and> partial_key gm d \<notin> insert ?k seenPartial"
      and c: "\<forall>d\<in>set deps. fst d \<notin> seenFull \<longrightarrow>
           partial_key gm d \<in> insert ?k seenPartial \<union> partial_key gm ` set new"
      by blast
    have step: "enqueue_partial gm seenFull (dep # deps) seenPartial Q'
        = enqueue_partial gm seenFull deps (insert ?k seenPartial)
           (Q' @ [PartialScopeDependency scope inc])"
      using False dep by auto
    have e': "enqueue_partial gm seenFull (dep # deps) seenPartial Q'
       = (seenPartial \<union> partial_key gm ` set (dep # new),
          Q' @ map (\<lambda>(scope, inc). PartialScopeDependency scope inc) (dep # new))"
      unfolding step e using k dep by simp
    have d': "distinct (map (partial_key gm) (dep # new))"
      using d n k by auto
    have n': "\<forall>d\<in>set (dep # new). d \<in> set (dep # deps) \<and> fst d \<notin> seenFull
          \<and> partial_key gm d \<notin> seenPartial"
      using n False k dep by auto
    have c': "\<forall>d\<in>set (dep # deps). fst d \<notin> seenFull \<longrightarrow>
           partial_key gm d \<in> seenPartial \<union> partial_key gm ` set (dep # new)"
      using c k by auto
    show ?thesis
      by (intro exI[of _ "dep # new"] conjI) (rule e' d' n' c')+
  qed
qed


lemma iteration_Inr:
  assumes "loadGrammar_iteration gm init st = Inr st'"
  obtains deps newFull newPartial where
      "await_Promise_all (registry st) (map dep_scopeName (Q st)) = (None, registry st')"
    and "collect_batch gm (registry st') init new_ScopeDependencyCollector (Q st) = Inr deps"
    and "seenFullScopeRequests st' = seenFullScopeRequests st \<union> set (full deps)"
    and "seenPartialScopeRequests st'
        = seenPartialScopeRequests st \<union> partial_key gm ` set newPartial"
    and "Q st' = map FullScopeDependency newFull
              @ map (\<lambda>(scope, include). PartialScopeDependency scope include) newPartial"
    and "distinct newFull"
    and "set newFull = set (full deps) - seenFullScopeRequests st"
    and "distinct (map (partial_key gm) newPartial)"
    and "\<forall>d\<in>set newPartial. d \<in> set (partial deps) \<and> fst d \<notin> seenFullScopeRequests st'
          \<and> partial_key gm d \<notin> seenPartialScopeRequests st"
    and "\<forall>d\<in>set (partial deps). fst d \<notin> seenFullScopeRequests st' \<longrightarrow>
          partial_key gm d \<in> seenPartialScopeRequests st'"
proof -
  obtain rejection reg where a:
    "await_Promise_all (registry st) (map dep_scopeName (Q st)) = (rejection, reg)"
    by (cases "await_Promise_all (registry st) (map dep_scopeName (Q st))")
  with assms have r: "rejection = None"
    by (cases rejection) (simp_all add: loadGrammar_iteration_def Let_def)
  from assms a r obtain deps where
    c: "collect_batch gm reg init new_ScopeDependencyCollector (Q st) = Inr deps"
    by (cases "collect_batch gm reg init new_ScopeDependencyCollector (Q st)")
      (simp_all add: loadGrammar_iteration_def Let_def)
  from enqueue_full_result[of "full deps" "seenFullScopeRequests st" "[]"]
  obtain newFull where
    f: "enqueue_full (full deps) (seenFullScopeRequests st) []
         = (seenFullScopeRequests st \<union> set (full deps), map FullScopeDependency newFull)"
    and df: "distinct newFull"
    and sf: "set newFull = set (full deps) - seenFullScopeRequests st"
    by auto
  let ?seenFull = "seenFullScopeRequests st \<union> set (full deps)"
  from enqueue_partial_result[of gm ?seenFull "partial deps" "seenPartialScopeRequests st"
      "map FullScopeDependency newFull"]
  obtain newPartial where
    p: "enqueue_partial gm ?seenFull (partial deps) (seenPartialScopeRequests st)
          (map FullScopeDependency newFull)
       = (seenPartialScopeRequests st \<union> partial_key gm ` set newPartial,
          map FullScopeDependency newFull
            @ map (\<lambda>(scope, include). PartialScopeDependency scope include) newPartial)"
    and dp: "distinct (map (partial_key gm) newPartial)"
    and np: "\<forall>d\<in>set newPartial. d \<in> set (partial deps) \<and> fst d \<notin> ?seenFull
          \<and> partial_key gm d \<notin> seenPartialScopeRequests st"
    and cp: "\<forall>d\<in>set (partial deps). fst d \<notin> ?seenFull \<longrightarrow>
           partial_key gm d \<in> seenPartialScopeRequests st \<union> partial_key gm ` set newPartial"
    by blast
  from assms have st': "st' = \<lparr>registry = reg, seenFullScopeRequests = ?seenFull,
      seenPartialScopeRequests = seenPartialScopeRequests st \<union> partial_key gm ` set newPartial,
      Q = map FullScopeDependency newFull
            @ map (\<lambda>(scope, include). PartialScopeDependency scope include) newPartial\<rparr>"
    by (simp add: loadGrammar_iteration_def Let_def a r c f p)
  show ?thesis
  proof (rule that[of deps newPartial newFull])
    show "await_Promise_all (registry st) (map dep_scopeName (Q st)) = (None, registry st')"
      using a r st' by simp
    show "collect_batch gm (registry st') init new_ScopeDependencyCollector (Q st) = Inr deps"
      using c st' by simp
    show "\<forall>d\<in>set newPartial. d \<in> set (partial deps) \<and> fst d \<notin> seenFullScopeRequests st'
          \<and> partial_key gm d \<notin> seenPartialScopeRequests st"
      using np st' by simp
    show "\<forall>d\<in>set (partial deps). fst d \<notin> seenFullScopeRequests st' \<longrightarrow>
          partial_key gm d \<in> seenPartialScopeRequests st'"
      using cp st' by simp
  qed (simp_all add: st' df sf dp)
qed

lemma iteration_seen_mono:
  assumes "loadGrammar_iteration gm init st = Inr st'"
  shows "seenFullScopeRequests st \<subseteq> seenFullScopeRequests st'"
    and "seenPartialScopeRequests st \<subseteq> seenPartialScopeRequests st'"
  using assms by (cases rule: iteration_Inr; simp)+

lemma iterations_seen_mono:
  "loadGrammar_iterations gm init n st = Inr st' \<Longrightarrow>
   seenFullScopeRequests st \<subseteq> seenFullScopeRequests st'
   \<and> seenPartialScopeRequests st \<subseteq> seenPartialScopeRequests st'"
proof (induction n arbitrary: st)
  case 0
  then show ?case by simp
next
  case (Suc n)
  then obtain st1 where s: "loadGrammar_iteration gm init st = Inr st1"
    and r: "loadGrammar_iterations gm init n st1 = Inr st'"
    by (auto split: sum.splits)
  from iteration_seen_mono[OF s] Suc.IH[OF r] show ?case
    by blast
qed

lemma iteration_frontier:
  assumes "loadGrammar_iteration gm init st = Inr st'"
  shows "(\<forall>d\<in>set (Q st'). dep_scopeName d \<notin> seenFullScopeRequests st)
    \<and> (\<forall>scope. FullScopeDependency scope \<in> set (Q st') \<longrightarrow>
           scope \<notin> seenFullScopeRequests st \<and> scope \<in> seenFullScopeRequests st')
    \<and> (\<forall>scope inc. PartialScopeDependency scope inc \<in> set (Q st') \<longrightarrow>
           scope \<notin> seenFullScopeRequests st'
           \<and> toKey gm scope inc \<notin> seenPartialScopeRequests st
           \<and> toKey gm scope inc \<in> seenPartialScopeRequests st')"
  using assms
proof (cases rule: iteration_Inr)
  case (1 deps newFull newPartial)
  note sf = 1(3) and sp = 1(4) and q = 1(5) and nf = 1(7) and np = 1(9)
  have full_in: "scope \<in> set newFull" if "FullScopeDependency scope \<in> set (Q st')" for scope
    using that unfolding q by auto
  have partial_in: "(scope, inc) \<in> set newPartial"
    if "PartialScopeDependency scope inc \<in> set (Q st')" for scope inc
    using that unfolding q by auto
  have f: "scope \<notin> seenFullScopeRequests st \<and> scope \<in> seenFullScopeRequests st'"
    if "FullScopeDependency scope \<in> set (Q st')" for scope
  proof -
    from that have "scope \<in> set (full deps) - seenFullScopeRequests st"
      unfolding nf[symmetric] by (rule full_in)
    then show ?thesis
      unfolding sf by simp
  qed
  have p: "scope \<notin> seenFullScopeRequests st'
           \<and> toKey gm scope inc \<notin> seenPartialScopeRequests st
           \<and> toKey gm scope inc \<in> seenPartialScopeRequests st'"
    if "PartialScopeDependency scope inc \<in> set (Q st')" for scope inc
  proof -
    from that have m: "(scope, inc) \<in> set newPartial"
      by (rule partial_in)
    from bspec[OF np m] have "fst (scope, inc) \<notin> seenFullScopeRequests st'
        \<and> partial_key gm (scope, inc) \<notin> seenPartialScopeRequests st"
      by (rule conjunct2)
    moreover from m have "partial_key gm (scope, inc) \<in> seenPartialScopeRequests st'"
      unfolding sp by (intro UnI2 imageI)
    ultimately show ?thesis
      by (simp add: partial_key_def)
  qed
  have a: "dep_scopeName d \<notin> seenFullScopeRequests st" if d: "d \<in> set (Q st')" for d
  proof (cases d)
    case (FullScopeDependency scope)
    with d f[of scope] show ?thesis by simp
  next
    case (PartialScopeDependency scope inc)
    with d p[of scope inc] have "scope \<notin> seenFullScopeRequests st'"
      by simp
    then have "scope \<notin> seenFullScopeRequests st"
      unfolding sf by simp
    with PartialScopeDependency show ?thesis by simp
  qed
  show ?thesis
  proof (intro conjI[of "\<forall>d\<in>set (Q st'). dep_scopeName d \<notin> seenFullScopeRequests st"] conjI[of "\<forall>scope. FullScopeDependency scope \<in> set (Q st') \<longrightarrow> scope \<notin> seenFullScopeRequests st \<and> scope \<in> seenFullScopeRequests st'"] ballI allI impI)
    fix d assume "d \<in> set (Q st')"
    then show "dep_scopeName d \<notin> seenFullScopeRequests st"
      by (rule a)
  next
    fix scope assume "FullScopeDependency scope \<in> set (Q st')"
    then show "scope \<notin> seenFullScopeRequests st \<and> scope \<in> seenFullScopeRequests st'"
      by (rule f)
  next
    fix scope inc assume "PartialScopeDependency scope inc \<in> set (Q st')"
    then show "scope \<notin> seenFullScopeRequests st'
           \<and> toKey gm scope inc \<notin> seenPartialScopeRequests st
           \<and> toKey gm scope inc \<in> seenPartialScopeRequests st'"
      by (rule p)
  qed
qed


section \<open>Termination\<close>

subsection \<open>What loading does to the registry\<close>

lemma loadSingleGrammar_fields:
  "syncRegistry (snd (p_loadSingleGrammar reg scope)) = syncRegistry reg"
  "locator (snd (p_loadSingleGrammar reg scope)) = locator reg"
  by (cases "ensureGrammarCache reg scope";
      simp add: loadSingleGrammar_fresh loadSingleGrammar_cached)+

lemma loadSingleGrammar_each_fields:
  "syncRegistry (snd (loadSingleGrammar_each reg scopes)) = syncRegistry reg
   \<and> locator (snd (loadSingleGrammar_each reg scopes)) = locator reg"
proof (induction scopes arbitrary: reg)
  case Nil
  show ?case by simp
next
  case (Cons scope scopes)
  from Cons.IH[of "snd (p_loadSingleGrammar reg scope)"] show ?case
    by (simp add: split_beta Let_def loadSingleGrammar_fields)
qed

lemma foldl_resume_locator:
  "locator (foldl p_doLoadSingleGrammar_resume reg ps) = locator reg"
  by (induction ps arbitrary: reg) (simp_all add: resume_fields)

lemma await_locator: "locator (snd (await_Promise_all reg scopes)) = locator reg"
  by (simp add: await_Promise_all_def split_beta Let_def foldl_resume_locator
      loadSingleGrammar_each_fields)

lemma ran_upd_subset: "ran (m(k \<mapsto> v)) \<subseteq> insert v (ran m)"
  by (auto simp add: ran_def)

lemma addGrammar_known:
  "ran (rawGrammars (SyncRegistry_addGrammar store g injs)) \<subseteq> insert g (ran (rawGrammars store))"
  "\<Union> (set ` ran (injectionGrammars (SyncRegistry_addGrammar store g injs)))
     \<subseteq> \<Union> (set ` ran (injectionGrammars store)) \<union> (case injs of None \<Rightarrow> {} | Some l \<Rightarrow> set l)"
  using ran_upd_subset[of "rawGrammars store" "scopeName g" g]
    ran_upd_subset[of "injectionGrammars store" "scopeName g"]
  by (auto simp add: SyncRegistry_addGrammar_def split: option.splits)

lemma resume_noop:
  "\<not> (p < length (doLoads reg) \<and> snd (doLoads reg ! p) = Pending) \<Longrightarrow>
   p_doLoadSingleGrammar_resume reg p = reg"
  unfolding p_doLoadSingleGrammar_resume_def by (rule if_not_P)

lemma resume_Rejects:
  "p < length (doLoads reg) \<Longrightarrow> snd (doLoads reg ! p) = Pending \<Longrightarrow>
   loadGrammar (locator reg) (fst (doLoads reg ! p)) = Rejects e \<Longrightarrow>
   p_doLoadSingleGrammar_resume reg p
     = reg\<lparr>doLoads := (doLoads reg)[p := (fst (doLoads reg ! p), Rejected e)]\<rparr>"
  by (simp add: p_doLoadSingleGrammar_resume_def)

lemma resume_None:
  "p < length (doLoads reg) \<Longrightarrow> snd (doLoads reg ! p) = Pending \<Longrightarrow>
   loadGrammar (locator reg) (fst (doLoads reg ! p)) = Resolves None \<Longrightarrow>
   p_doLoadSingleGrammar_resume reg p
     = reg\<lparr>doLoads := (doLoads reg)[p := (fst (doLoads reg ! p), Fulfilled)]\<rparr>"
  by (simp add: p_doLoadSingleGrammar_resume_def)

lemma resume_Some:
  "p < length (doLoads reg) \<Longrightarrow> snd (doLoads reg ! p) = Pending \<Longrightarrow>
   loadGrammar (locator reg) (fst (doLoads reg ! p)) = Resolves (Some g) \<Longrightarrow>
   p_doLoadSingleGrammar_resume reg p
     = reg\<lparr>syncRegistry := SyncRegistry_addGrammar (syncRegistry reg) g
           (case getInjections (locator reg) of None \<Rightarrow> None
            | Some f \<Rightarrow> Some (f (fst (doLoads reg ! p)))),
         doLoads := (doLoads reg)[p := (fst (doLoads reg ! p), Fulfilled)]\<rparr>"
  by (simp add: p_doLoadSingleGrammar_resume_def Let_def)

lemma resume_known:
  "known_grammars (p_doLoadSingleGrammar_resume reg p) \<subseteq> known_grammars reg"
  "known_injections (p_doLoadSingleGrammar_resume reg p) \<subseteq> known_injections reg"
proof -
  let ?reg' = "p_doLoadSingleGrammar_resume reg p"
  show "known_grammars ?reg' \<subseteq> known_grammars reg"
  proof (cases "p < length (doLoads reg) \<and> snd (doLoads reg ! p) = Pending")
    case False
    then show ?thesis by (simp add: resume_noop)
  next
    case True
    show ?thesis
    proof (cases "loadGrammar (locator reg) (fst (doLoads reg ! p))")
      case (Rejects e)
      with True show ?thesis
        by (simp add: resume_Rejects known_grammars_def)
    next
      case (Resolves r)
      show ?thesis
      proof (cases r)
        case None
        with True Resolves show ?thesis
          by (simp add: resume_None known_grammars_def)
      next
        case (Some g)
        with True Resolves
        have "syncRegistry ?reg' = SyncRegistry_addGrammar (syncRegistry reg) g
            (case getInjections (locator reg) of None \<Rightarrow> None
             | Some f \<Rightarrow> Some (f (fst (doLoads reg ! p))))"
          and "locator ?reg' = locator reg"
          by (simp_all add: resume_Some)
        moreover have "g \<in> known_grammars reg"
          using Resolves Some by (auto simp add: known_grammars_def)
        ultimately show ?thesis
          using addGrammar_known(1)[of "syncRegistry reg" g]
          by (auto simp add: known_grammars_def)
      qed
    qed
  qed
  show "known_injections ?reg' \<subseteq> known_injections reg"
  proof (cases "p < length (doLoads reg) \<and> snd (doLoads reg ! p) = Pending")
    case False
    then show ?thesis by (simp add: resume_noop)
  next
    case True
    show ?thesis
    proof (cases "loadGrammar (locator reg) (fst (doLoads reg ! p))")
      case (Rejects e)
      with True show ?thesis
        by (simp add: resume_Rejects known_injections_def)
    next
      case (Resolves r)
      show ?thesis
      proof (cases r)
        case None
        with True Resolves show ?thesis
          by (simp add: resume_None known_injections_def)
      next
        case (Some g)
        let ?injs = "case getInjections (locator reg) of None \<Rightarrow> None
             | Some f \<Rightarrow> Some (f (fst (doLoads reg ! p)))"
        from Some True Resolves
        have s: "syncRegistry ?reg' = SyncRegistry_addGrammar (syncRegistry reg) g ?injs"
          and l: "locator ?reg' = locator reg"
          by (simp_all add: resume_Some)
        have "(case ?injs of None \<Rightarrow> {} | Some l \<Rightarrow> set l) \<subseteq> known_injections reg"
          by (auto simp add: known_injections_def split: option.splits)
        with addGrammar_known(2)[of "syncRegistry reg" g ?injs]
        show ?thesis
          unfolding known_injections_def[of ?reg'] s l
          by (auto simp add: known_injections_def)
      qed
    qed
  qed
qed

lemma foldl_resume_known:
  "known_grammars (foldl p_doLoadSingleGrammar_resume reg ps) \<subseteq> known_grammars reg
   \<and> known_injections (foldl p_doLoadSingleGrammar_resume reg ps) \<subseteq> known_injections reg"
proof (induction ps arbitrary: reg)
  case Nil
  show ?case by simp
next
  case (Cons p ps)
  from Cons.IH[of "p_doLoadSingleGrammar_resume reg p"] resume_known[of reg p]
  show ?case by auto
qed

lemma loadSingleGrammar_each_known:
  "known_grammars (snd (loadSingleGrammar_each reg scopes)) = known_grammars reg"
  "known_injections (snd (loadSingleGrammar_each reg scopes)) = known_injections reg"
  by (simp_all add: known_grammars_def known_injections_def loadSingleGrammar_each_fields)

lemma await_known:
  "known_grammars (snd (await_Promise_all reg scopes)) \<subseteq> known_grammars reg"
  "known_injections (snd (await_Promise_all reg scopes)) \<subseteq> known_injections reg"
  using foldl_resume_known[of "snd (loadSingleGrammar_each reg scopes)"
      "fst (loadSingleGrammar_each reg scopes)"]
  by (simp_all add: await_Promise_all_def split_beta Let_def loadSingleGrammar_each_known)

lemma dependencies_within_antimono:
  assumes "dependencies_within gm reg U K"
    and "known_grammars reg' \<subseteq> known_grammars reg"
    and "known_injections reg' \<subseteq> known_injections reg"
  shows "dependencies_within gm reg' U K"
  using assms unfolding dependencies_within_def by blast

lemma dependencies_within_await:
  "dependencies_within gm reg U K \<Longrightarrow>
   dependencies_within gm (snd (await_Promise_all reg scopes)) U K"
  by (erule dependencies_within_antimono) (rule await_known)+


lemma new_collector_within: "collector_within gm U K new_ScopeDependencyCollector"
  by (simp add: collector_within_def new_ScopeDependencyCollector_def)

lemma add_injections_within:
  "collector_within gm U K result \<Longrightarrow> set injections \<subseteq> U \<Longrightarrow>
   collector_within gm U K
     (foldl (\<lambda>r injection. collector_add r (FullScopeDependency injection)) result injections)"
  by (induction injections arbitrary: result) (simp_all add: collector_within_def)

lemma lookup_known:
  "SyncRegistry_lookup (syncRegistry reg) scope = Some g \<Longrightarrow> g \<in> known_grammars reg"
  by (auto simp add: SyncRegistry_lookup_def known_grammars_def ran_def)

lemma injections_known:
  "SyncRegistry_injections (syncRegistry reg) scope = Some injs \<Longrightarrow>
   set injs \<subseteq> known_injections reg"
  by (auto simp add: SyncRegistry_injections_def known_injections_def ran_def)

lemma collectDependenciesForDep_present:
  "SyncRegistry_lookup (syncRegistry reg) (dep_scopeName dep) = Some g \<Longrightarrow>
   p_collectDependenciesForDep gm reg init result dep =
     Inr (foldl (\<lambda>r injection. collector_add r (FullScopeDependency injection))
           (case dep of
              FullScopeDependency scope \<Rightarrow> collectDependencies gm result g
            | PartialScopeDependency scope inc \<Rightarrow> collectSpecificDependencies gm result g inc)
           (case SyncRegistry_injections (syncRegistry reg) (dep_scopeName dep) of
              None \<Rightarrow> []
            | Some injections \<Rightarrow> injections))"
  by (simp add: p_collectDependenciesForDep_def split: option.splits)

lemma collectDependenciesForDep_absent:
  "SyncRegistry_lookup (syncRegistry reg) (dep_scopeName dep) = None \<Longrightarrow>
   p_collectDependenciesForDep gm reg init result dep =
     (if dep_scopeName dep = init
      then Inl (Error (''No grammar provided for <'' @ init @ ''>''))
      else Inr result)"
  by (simp add: p_collectDependenciesForDep_def)

lemma collectDependenciesForDep_within:
  assumes d: "dependencies_within gm reg U K"
    and c: "collector_within gm U K result"
    and r: "p_collectDependenciesForDep gm reg init result dep = Inr result'"
  shows "collector_within gm U K result'"
proof (cases "SyncRegistry_lookup (syncRegistry reg) (dep_scopeName dep)")
  case None
  with r c show ?thesis
    by (simp add: collectDependenciesForDep_absent split: if_splits)
next
  case (Some g)
  then have g: "g \<in> known_grammars reg"
    by (rule lookup_known)
  with d c have scan: "collector_within gm U K (collectDependencies gm result g)"
    "\<And>inc. collector_within gm U K (collectSpecificDependencies gm result g inc)"
    unfolding dependencies_within_def by blast+
  have w: "collector_within gm U K
      (case dep of
         FullScopeDependency scope \<Rightarrow> collectDependencies gm result g
       | PartialScopeDependency scope inc \<Rightarrow> collectSpecificDependencies gm result g inc)"
    using scan by (cases dep) simp_all
  have i: "set (case SyncRegistry_injections (syncRegistry reg) (dep_scopeName dep) of
              None \<Rightarrow> []
            | Some injections \<Rightarrow> injections) \<subseteq> U"
  proof (cases "SyncRegistry_injections (syncRegistry reg) (dep_scopeName dep)")
    case None
    then show ?thesis by simp
  next
    case (Some injs)
    from injections_known[OF this] d show ?thesis
      unfolding dependencies_within_def Some by auto
  qed
  from r show ?thesis
    unfolding collectDependenciesForDep_present[OF Some]
    using add_injections_within[OF w i] by simp
qed

lemma collect_batch_within:
  "dependencies_within gm reg U K \<Longrightarrow> collector_within gm U K deps \<Longrightarrow>
   collect_batch gm reg init deps q = Inr deps' \<Longrightarrow> collector_within gm U K deps'"
proof (induction q arbitrary: deps)
  case Nil
  then show ?case by simp
next
  case (Cons dep q)
  from Cons.prems(3) obtain deps1 where
    1: "p_collectDependenciesForDep gm reg init deps dep = Inr deps1"
    and 2: "collect_batch gm reg init deps1 q = Inr deps'"
    by (auto split: sum.splits)
  from collectDependenciesForDep_within[OF Cons.prems(1,2) 1]
  have "collector_within gm U K deps1" .
  from Cons.IH[OF Cons.prems(1) this 2] show ?case .
qed

lemma iteration_within:
  assumes i: "loadGrammar_iteration gm init st = Inr st'"
    and d: "dependencies_within gm (registry st) U K"
  shows "dependencies_within gm (registry st') U K"
    and "seenFullScopeRequests st' - seenFullScopeRequests st \<subseteq> U"
    and "seenPartialScopeRequests st' - seenPartialScopeRequests st \<subseteq> K"
    and "Q st' \<noteq> [] \<Longrightarrow>
         seenFullScopeRequests st \<subset> seenFullScopeRequests st'
         \<or> seenPartialScopeRequests st \<subset> seenPartialScopeRequests st'"
proof -
  from i obtain deps newFull newPartial where
    a: "await_Promise_all (registry st) (map dep_scopeName (Q st)) = (None, registry st')"
    and c: "collect_batch gm (registry st') init new_ScopeDependencyCollector (Q st) = Inr deps"
    and sf: "seenFullScopeRequests st' = seenFullScopeRequests st \<union> set (full deps)"
    and sp: "seenPartialScopeRequests st'
        = seenPartialScopeRequests st \<union> partial_key gm ` set newPartial"
    and q: "Q st' = map FullScopeDependency newFull
              @ map (\<lambda>(scope, include). PartialScopeDependency scope include) newPartial"
    and nf: "set newFull = set (full deps) - seenFullScopeRequests st"
    and np: "\<forall>d\<in>set newPartial. d \<in> set (partial deps) \<and> fst d \<notin> seenFullScopeRequests st'
          \<and> partial_key gm d \<notin> seenPartialScopeRequests st"
    by (rule iteration_Inr)
  from dependencies_within_await[OF d, of "map dep_scopeName (Q st)"] a
  show d': "dependencies_within gm (registry st') U K"
    by simp
  from collect_batch_within[OF d' new_collector_within c]
  have w: "set (full deps) \<subseteq> U" "partial_key gm ` set (partial deps) \<subseteq> K"
    by (simp_all add: collector_within_def)
  show "seenFullScopeRequests st' - seenFullScopeRequests st \<subseteq> U"
    using w(1) unfolding sf by blast
  have "partial_key gm ` set newPartial \<subseteq> partial_key gm ` set (partial deps)"
    using np by blast
  with w(2) show "seenPartialScopeRequests st' - seenPartialScopeRequests st \<subseteq> K"
    unfolding sp by blast
  show "seenFullScopeRequests st \<subset> seenFullScopeRequests st'
         \<or> seenPartialScopeRequests st \<subset> seenPartialScopeRequests st'"
    if "Q st' \<noteq> []"
  proof (cases "newFull = []")
    case False
    then obtain x where "x \<in> set newFull"
      by (cases newFull) auto
    with nf have "x \<in> set (full deps)" "x \<notin> seenFullScopeRequests st"
      by blast+
    then have "seenFullScopeRequests st \<subset> seenFullScopeRequests st'"
      unfolding sf by blast
    then show ?thesis ..
  next
    case True
    with that q have "newPartial \<noteq> []"
      by auto
    then obtain x where x: "x \<in> set newPartial"
      by (cases newPartial) auto
    with np have "partial_key gm x \<notin> seenPartialScopeRequests st"
      by blast
    moreover from x have "partial_key gm x \<in> seenPartialScopeRequests st'"
      unfolding sp by blast
    ultimately have "seenPartialScopeRequests st \<subset> seenPartialScopeRequests st'"
      unfolding sp by blast
    then show ?thesis ..
  qed
qed

lemma iteration_unseen:
  assumes i: "loadGrammar_iteration gm init st = Inr st'"
    and d: "dependencies_within gm (registry st) U K"
    and f: "finite U" "finite K"
    and q: "Q st' \<noteq> []"
  shows "unseen U K st' < unseen U K st"
proof -
  note m = iteration_seen_mono[OF i]
  note w = iteration_within[OF i d]
  have le1: "card (U - seenFullScopeRequests st') \<le> card (U - seenFullScopeRequests st)"
    using m(1) f(1) by (intro card_mono) auto
  have le2: "card (K - seenPartialScopeRequests st') \<le> card (K - seenPartialScopeRequests st)"
    using m(2) f(2) by (intro card_mono) auto
  from w(4)[OF q] show ?thesis
  proof
    assume "seenFullScopeRequests st \<subset> seenFullScopeRequests st'"
    with w(2) have "U - seenFullScopeRequests st' \<subset> U - seenFullScopeRequests st"
      by blast
    with f(1) have "card (U - seenFullScopeRequests st') < card (U - seenFullScopeRequests st)"
      by (intro psubset_card_mono) auto
    with le2 show ?thesis
      by (simp add: unseen_def)
  next
    assume "seenPartialScopeRequests st \<subset> seenPartialScopeRequests st'"
    with w(3) have "K - seenPartialScopeRequests st' \<subset> K - seenPartialScopeRequests st"
      by blast
    with f(2) have "card (K - seenPartialScopeRequests st') < card (K - seenPartialScopeRequests st)"
      by (intro psubset_card_mono) auto
    with le1 show ?thesis
      by (simp add: unseen_def)
  qed
qed

lemma while_terminates:
  assumes f: "finite U" "finite K"
  shows "dependencies_within gm (registry st) U K \<Longrightarrow>
         \<exists>n. n \<le> unseen U K st + 1
           \<and> loadGrammar_while gm init st = Some (loadGrammar_iterations gm init n st)
           \<and> (\<forall>st'. loadGrammar_iterations gm init n st = Inr st' \<longrightarrow> Q st' = [])"
proof (induction "unseen U K st" arbitrary: st rule: less_induct)
  case less
  show ?case
  proof (cases "Q st = []")
    case True
    then have "loadGrammar_while gm init st = Some (loadGrammar_iterations gm init 0 st)"
      by (subst loadGrammar_while.simps) simp
    with True show ?thesis
      by (intro exI[of _ 0]) simp
  next
    case False
    show ?thesis
    proof (cases "loadGrammar_iteration gm init st")
      case (Inl failure)
      with False
      have "loadGrammar_while gm init st = Some (loadGrammar_iterations gm init 1 st)"
        by (subst loadGrammar_while.simps) simp
      with Inl show ?thesis
        by (intro exI[of _ 1]) simp
    next
      case (Inr st')
      note d' = iteration_within(1)[OF Inr less.prems]
      have step: "loadGrammar_while gm init st = loadGrammar_while gm init st'"
        using False Inr by (subst loadGrammar_while.simps) simp
      have its: "loadGrammar_iterations gm init (Suc n) st = loadGrammar_iterations gm init n st'"
        for n
        using Inr by simp
      show ?thesis
      proof (cases "Q st' = []")
        case True
        then have "loadGrammar_while gm init st' = Some (loadGrammar_iterations gm init 0 st')"
          by (subst loadGrammar_while.simps) simp
        with True show ?thesis
          unfolding step by (intro exI[of _ 1]) (simp add: Inr)
      next
        case False
        from iteration_unseen[OF Inr less.prems f False]
        have lt: "unseen U K st' < unseen U K st" .
        from less.hyps[OF this d'] obtain n where
          n: "n \<le> unseen U K st' + 1"
          and w: "loadGrammar_while gm init st' = Some (loadGrammar_iterations gm init n st')"
          and e: "\<forall>st''. loadGrammar_iterations gm init n st' = Inr st'' \<longrightarrow> Q st'' = []"
          by blast
        show ?thesis
        proof (intro exI[of _ "Suc n"] conjI)
          show "Suc n \<le> unseen U K st + 1"
            using n lt by simp
          show "loadGrammar_while gm init st = Some (loadGrammar_iterations gm init (Suc n) st)"
            unfolding step its by (rule w)
          show "\<forall>st'. loadGrammar_iterations gm init (Suc n) st = Inr st' \<longrightarrow> Q st' = []"
            unfolding its by (rule e)
        qed
      qed
    qed
  qed
qed

lemma unseen_start: "finite U \<Longrightarrow> finite K \<Longrightarrow> unseen U K st \<le> card U + card K"
  unfolding unseen_def by (intro add_mono card_mono) auto


text \<open>
  Claim C3. When the scope names and keys that can be discovered lie in finite sets \<open>U\<close>
  and \<open>K\<close>, the loop of \<^verbatim>\<open>_loadGrammar\<close> ends, cycles among the grammars included, after at
  most \<open>card U + card K + 1\<close> rounds, and \<^verbatim>\<open>_loadGrammar\<close> returns a result.
\<close>

theorem loadGrammar_terminates:
  assumes "finite U" and "finite K"
    and "dependencies_within gm reg U K"
  shows "(\<exists>result. p_loadGrammar gm reg init initialLanguage embeddedLanguages tokenTypes
            = Some result)
    \<and> (\<exists>n. n \<le> card U + card K + 1
          \<and> loadGrammar_while gm init (loadGrammar_start reg init)
              = Some (loadGrammar_iterations gm init n (loadGrammar_start reg init)))"
proof -
  have "dependencies_within gm (registry (loadGrammar_start reg init)) U K"
    using assms(3) by (simp add: loadGrammar_start_def)
  from while_terminates[OF assms(1,2) this, of init] obtain n where
    n: "n \<le> unseen U K (loadGrammar_start reg init) + 1"
    and w: "loadGrammar_while gm init (loadGrammar_start reg init)
        = Some (loadGrammar_iterations gm init n (loadGrammar_start reg init))"
    by blast
  from n unseen_start[OF assms(1,2), of "loadGrammar_start reg init"]
  have "n \<le> card U + card K + 1"
    by simp
  moreover have "\<exists>result. p_loadGrammar gm reg init initialLanguage embeddedLanguages tokenTypes
            = Some result"
    unfolding p_loadGrammar_def w by (simp split: sum.splits prod.splits)
  ultimately show ?thesis
    using w by blast
qed

lemma foldl_add_within:
  "collector_within gm U K result \<Longrightarrow>
   \<forall>d\<in>set deps. case d of
       FullScopeDependency scope \<Rightarrow> scope \<in> U
     | PartialScopeDependency scope inc \<Rightarrow> toKey gm scope inc \<in> K \<Longrightarrow>
   collector_within gm U K (foldl collector_add result deps)"
proof (induction deps arbitrary: result)
  case Nil
  then show ?case by simp
next
  case (Cons d deps)
  have "collector_within gm U K (collector_add result d)"
    using Cons.prems by (cases d) (simp_all add: collector_within_def partial_key_def)
  with Cons show ?case by simp
qed

lemma example_scan_within:
  assumes "collector_within example_grammar_ts
      {''source.a'', ''source.b'', ''source.c'', ''source.d'', ''source.e''}
      {''source.c#stringRule''} result"
    and "example_grammars scope = Some g"
  shows "collector_within example_grammar_ts
      {''source.a'', ''source.b'', ''source.c'', ''source.d'', ''source.e''}
      {''source.c#stringRule''} (collectDependencies example_grammar_ts result g)"
    and "collector_within example_grammar_ts
      {''source.a'', ''source.b'', ''source.c'', ''source.d'', ''source.e''}
      {''source.c#stringRule''} (collectSpecificDependencies example_grammar_ts result g inc)"
proof -
  have k: "toKey example_grammar_ts ''source.c'' ''stringRule'' = ''source.c#stringRule''"
    by (simp add: example_grammar_ts_def)
  have all: "\<forall>d\<in>set (concat (map snd (rules g))). case d of
       FullScopeDependency scope \<Rightarrow>
         scope \<in> {''source.a'', ''source.b'', ''source.c'', ''source.d'', ''source.e''}
     | PartialScopeDependency scope inc \<Rightarrow>
         toKey example_grammar_ts scope inc \<in> {''source.c#stringRule''}"
    using assms(2) k by (auto simp add: example_grammars_def split: if_splits)
  then have some: "\<forall>d\<in>set (concat (map snd (filter (\<lambda>rule. fst rule = inc) (rules g)))).
     case d of
       FullScopeDependency scope \<Rightarrow>
         scope \<in> {''source.a'', ''source.b'', ''source.c'', ''source.d'', ''source.e''}
     | PartialScopeDependency scope inc \<Rightarrow>
         toKey example_grammar_ts scope inc \<in> {''source.c#stringRule''}"
    by auto
  have c: "collectDependencies example_grammar_ts result g
      = foldl collector_add result (concat (map snd (rules g)))"
    and s: "collectSpecificDependencies example_grammar_ts result g inc
      = foldl collector_add result
          (concat (map snd (filter (\<lambda>rule. fst rule = inc) (rules g))))"
    by (simp_all add: example_grammar_ts_def)
  show "collector_within example_grammar_ts
      {''source.a'', ''source.b'', ''source.c'', ''source.d'', ''source.e''}
      {''source.c#stringRule''} (collectDependencies example_grammar_ts result g)"
    unfolding c using assms(1) all by (rule foldl_add_within)
  show "collector_within example_grammar_ts
      {''source.a'', ''source.b'', ''source.c'', ''source.d'', ''source.e''}
      {''source.c#stringRule''} (collectSpecificDependencies example_grammar_ts result g inc)"
    unfolding s using assms(1) some by (rule foldl_add_within)
qed

lemma example_known:
  "g \<in> known_grammars (new_Registry example_locator) \<Longrightarrow> \<exists>scope. example_grammars scope = Some g"
  "known_injections (new_Registry example_locator) \<subseteq> {''source.d''}"
  by (auto simp add: known_grammars_def known_injections_def new_Registry_def
      new_SyncRegistry_def example_locator_def)

lemma example_dependencies_within:
  "dependencies_within example_grammar_ts (new_Registry example_locator)
     {''source.a'', ''source.b'', ''source.c'', ''source.d'', ''source.e''}
     {''source.c#stringRule''}"
  unfolding dependencies_within_def
proof (intro conjI ballI allI impI)
  show "known_injections (new_Registry example_locator)
      \<subseteq> {''source.a'', ''source.b'', ''source.c'', ''source.d'', ''source.e''}"
    using example_known(2) by blast
next
  fix g result
  assume "g \<in> known_grammars (new_Registry example_locator)"
  then obtain scope where g: "example_grammars scope = Some g"
    using example_known(1) by blast
  assume "collector_within example_grammar_ts
      {''source.a'', ''source.b'', ''source.c'', ''source.d'', ''source.e''}
      {''source.c#stringRule''} result"
  from this g show "collector_within example_grammar_ts
      {''source.a'', ''source.b'', ''source.c'', ''source.d'', ''source.e''}
      {''source.c#stringRule''} (collectDependencies example_grammar_ts result g)"
    and "\<And>inc. collector_within example_grammar_ts
      {''source.a'', ''source.b'', ''source.c'', ''source.d'', ''source.e''}
      {''source.c#stringRule''} (collectSpecificDependencies example_grammar_ts result g inc)"
    by (rule example_scan_within)+
qed

theorem loadGrammar_terminates_witness:
  "(\<exists>result. p_loadGrammar example_grammar_ts (new_Registry example_locator) ''source.a''
        0 None None = Some result)
   \<and> (\<exists>n. n \<le> 7 \<and> loadGrammar_while example_grammar_ts ''source.a''
          (loadGrammar_start (new_Registry example_locator) ''source.a'')
        = Some (loadGrammar_iterations example_grammar_ts ''source.a'' n
             (loadGrammar_start (new_Registry example_locator) ''source.a'')))
   \<and> FullScopeDependency ''source.b''
        \<in> set (concat (map snd (rules (the (example_grammars ''source.a'')))))
   \<and> FullScopeDependency ''source.a''
        \<in> set (concat (map snd (rules (the (example_grammars ''source.b'')))))"
proof -
  have f: "finite {''source.a'', ''source.b'', ''source.c'', ''source.d'', ''source.e''}"
    "finite {''source.c#stringRule''}"
    by simp_all
  have c: "card {''source.a'', ''source.b'', ''source.c'', ''source.d'', ''source.e''}
      + card {''source.c#stringRule''} + 1 = (7::nat)"
    by simp
  from loadGrammar_terminates[OF f example_dependencies_within,
      of "''source.a''" 0 None None]
  show ?thesis
    unfolding c by (simp add: example_grammars_def)
qed


section \<open>Failure and success of a resolution\<close>

lemma never_rejects_loadSingleGrammar:
  "never_rejects reg \<Longrightarrow> never_rejects (snd (p_loadSingleGrammar reg scope))"
  by (cases "ensureGrammarCache reg scope")
    (auto simp add: never_rejects_def loadSingleGrammar_fresh loadSingleGrammar_cached)

lemma never_rejects_each:
  "never_rejects reg \<Longrightarrow> never_rejects (snd (loadSingleGrammar_each reg scopes))"
proof (induction scopes arbitrary: reg)
  case Nil
  then show ?case by simp
next
  case (Cons scope scopes)
  from Cons.IH[OF never_rejects_loadSingleGrammar[OF Cons.prems, of scope]]
  show ?case by (simp add: split_beta)
qed

lemma never_rejects_resume:
  assumes "never_rejects reg"
  shows "never_rejects (p_doLoadSingleGrammar_resume reg p)"
proof (cases "p < length (doLoads reg) \<and> snd (doLoads reg ! p) = Pending")
  case False
  with assms show ?thesis by (simp add: resume_noop)
next
  case True
  let ?scope = "fst (doLoads reg ! p)"
  from assms have l: "\<And>e. loadGrammar (locator reg) ?scope \<noteq> Rejects e"
    and old: "\<And>load e. load \<in> set (doLoads reg) \<Longrightarrow> snd load \<noteq> Rejected e"
    unfolding never_rejects_def by blast+
  have new: "snd load \<noteq> Rejected e"
    if "load \<in> set ((doLoads reg)[p := (?scope, Fulfilled)])" for load e
  proof -
    from that set_update_subset_insert[of "doLoads reg" p "(?scope, Fulfilled)"]
    have "load = (?scope, Fulfilled) \<or> load \<in> set (doLoads reg)"
      by blast
    with old[of load e] show ?thesis by auto
  qed
  show ?thesis
  proof (cases "loadGrammar (locator reg) ?scope")
    case (Rejects e)
    with l[of e] show ?thesis by blast
  next
    case (Resolves r)
    show ?thesis
    proof (cases r)
      case None
      with True Resolves have "p_doLoadSingleGrammar_resume reg p
          = reg\<lparr>doLoads := (doLoads reg)[p := (?scope, Fulfilled)]\<rparr>"
        by (simp add: resume_None)
      with assms new show ?thesis
        by (simp add: never_rejects_def)
    next
      case (Some g)
      with True Resolves have "doLoads (p_doLoadSingleGrammar_resume reg p)
          = (doLoads reg)[p := (?scope, Fulfilled)]"
        by (simp add: resume_Some)
      with assms new show ?thesis
        by (simp add: never_rejects_def resume_fields)
    qed
  qed
qed

lemma never_rejects_foldl_resume:
  "never_rejects reg \<Longrightarrow> never_rejects (foldl p_doLoadSingleGrammar_resume reg ps)"
  by (induction ps arbitrary: reg) (simp_all add: never_rejects_resume)

lemma first_rejection_None:
  "\<forall>load\<in>set loads. \<forall>e. snd load \<noteq> Rejected e \<Longrightarrow> first_rejection loads ps = None"
proof (induction ps)
  case Nil
  show ?case by simp
next
  case (Cons p ps)
  then have "p < length loads \<Longrightarrow> \<forall>e. snd (loads ! p) \<noteq> Rejected e"
    by simp
  with Cons show ?case
    by (auto split: PromiseState.splits)
qed

lemma never_rejects_await:
  assumes "never_rejects reg"
  shows "fst (await_Promise_all reg scopes) = None"
    and "never_rejects (snd (await_Promise_all reg scopes))"
proof -
  let ?reg' = "foldl p_doLoadSingleGrammar_resume (snd (loadSingleGrammar_each reg scopes))
      (fst (loadSingleGrammar_each reg scopes))"
  have n: "never_rejects ?reg'"
    by (intro never_rejects_foldl_resume never_rejects_each assms)
  then show "never_rejects (snd (await_Promise_all reg scopes))"
    by (simp add: await_Promise_all_def split_beta Let_def)
  from n have "\<forall>load\<in>set (doLoads ?reg'). \<forall>e. snd load \<noteq> Rejected e"
    by (simp add: never_rejects_def)
  from first_rejection_None[OF this] show "fst (await_Promise_all reg scopes) = None"
    by (simp add: await_Promise_all_def split_beta Let_def)
qed

lemma collectDependenciesForDep_not_initial:
  "dep_scopeName dep \<noteq> init \<Longrightarrow> \<exists>result'. p_collectDependenciesForDep gm reg init result dep = Inr result'"
  by (cases "SyncRegistry_lookup (syncRegistry reg) (dep_scopeName dep)")
    (simp_all add: collectDependenciesForDep_absent collectDependenciesForDep_present)

lemma collect_batch_not_initial:
  "\<forall>d\<in>set q. dep_scopeName d \<noteq> init \<Longrightarrow> \<exists>deps'. collect_batch gm reg init deps q = Inr deps'"
proof (induction q arbitrary: deps)
  case Nil
  show ?case by simp
next
  case (Cons dep q)
  then obtain deps1 where "p_collectDependenciesForDep gm reg init deps dep = Inr deps1"
    using collectDependenciesForDep_not_initial[of dep init gm reg deps] by auto
  with Cons show ?case by simp
qed

lemma iteration_succeeds:
  assumes a: "await_Promise_all (registry st) (map dep_scopeName (Q st)) = (None, reg')"
    and c: "collect_batch gm reg' init new_ScopeDependencyCollector (Q st) = Inr deps"
  shows "\<exists>st'. loadGrammar_iteration gm init st = Inr st' \<and> registry st' = reg'"
  by (simp add: loadGrammar_iteration_def Let_def a c split_beta)

lemma iteration_fails:
  assumes a: "await_Promise_all (registry st) (map dep_scopeName (Q st)) = (None, reg')"
    and c: "collect_batch gm reg' init new_ScopeDependencyCollector (Q st) = Inl e"
  shows "loadGrammar_iteration gm init st = Inl (e, reg')"
  by (simp add: loadGrammar_iteration_def Let_def a c)

lemma past_first_round_iteration:
  assumes "past_first_round init st"
  shows "\<exists>st'. loadGrammar_iteration gm init st = Inr st' \<and> past_first_round init st'"
proof -
  from assms have n: "never_rejects (registry st)"
    and i: "init \<in> seenFullScopeRequests st"
    and q: "\<forall>d\<in>set (Q st). dep_scopeName d \<noteq> init"
    by (simp_all add: past_first_round_def)
  let ?a = "await_Promise_all (registry st) (map dep_scopeName (Q st))"
  from never_rejects_await[OF n, of "map dep_scopeName (Q st)"]
  have a: "?a = (None, snd ?a)" and n': "never_rejects (snd ?a)"
    by (simp_all add: prod_eq_iff)
  from collect_batch_not_initial[OF q] obtain deps where
    "collect_batch gm (snd ?a) init new_ScopeDependencyCollector (Q st) = Inr deps"
    by blast
  from iteration_succeeds[OF a this] obtain st' where
    s: "loadGrammar_iteration gm init st = Inr st'" and r: "registry st' = snd ?a"
    by blast
  from iteration_frontier[OF s] i have "\<forall>d\<in>set (Q st'). dep_scopeName d \<noteq> init"
    by blast
  moreover from iteration_seen_mono(1)[OF s] i have "init \<in> seenFullScopeRequests st'"
    by blast
  ultimately have "past_first_round init st'"
    using n' r by (simp add: past_first_round_def)
  with s show ?thesis by blast
qed

lemma past_first_round_iterations:
  "past_first_round init st \<Longrightarrow> \<exists>st'. loadGrammar_iterations gm init n st = Inr st'"
proof (induction n arbitrary: st)
  case 0
  show ?case by simp
next
  case (Suc n)
  from past_first_round_iteration[OF Suc.prems, of gm] obtain st1 where
    "loadGrammar_iteration gm init st = Inr st1" "past_first_round init st1"
    by blast
  with Suc.IH[of st1] show ?case by simp
qed


lemma first_round_fails:
  assumes "await_Promise_all reg [init] = (None, reg')"
    and "SyncRegistry_lookup (syncRegistry reg') init = None"
  shows "p_loadGrammar gm reg init initialLanguage embeddedLanguages tokenTypes
    = Some (Inl (Error (''No grammar provided for <'' @ init @ ''>'')), reg')"
proof -
  let ?start = "loadGrammar_start reg init"
  have a: "await_Promise_all (registry ?start) (map dep_scopeName (Q ?start)) = (None, reg')"
    using assms(1) by (simp add: loadGrammar_start_def)
  have "collect_batch gm reg' init new_ScopeDependencyCollector (Q ?start)
      = Inl (Error (''No grammar provided for <'' @ init @ ''>''))"
    using assms(2) by (simp add: loadGrammar_start_def collectDependenciesForDep_absent)
  from iteration_fails[OF a this]
  have "loadGrammar_while gm init ?start
      = Some (Inl (Error (''No grammar provided for <'' @ init @ ''>''), reg'))"
    by (subst loadGrammar_while.simps) (simp add: loadGrammar_start_def)
  then show ?thesis
    by (simp add: p_loadGrammar_def)
qed

lemma first_round_succeeds:
  assumes n: "never_rejects reg"
    and p: "SyncRegistry_lookup (syncRegistry (snd (await_Promise_all reg [init]))) init \<noteq> None"
  shows "\<exists>st1. loadGrammar_iteration gm init (loadGrammar_start reg init) = Inr st1
    \<and> past_first_round init st1"
proof -
  let ?start = "loadGrammar_start reg init"
  let ?a = "await_Promise_all reg [init]"
  from never_rejects_await[OF n, of "[init]"]
  have a: "await_Promise_all (registry ?start) (map dep_scopeName (Q ?start)) = (None, snd ?a)"
    and n': "never_rejects (snd ?a)"
    by (simp_all add: prod_eq_iff loadGrammar_start_def)
  from p obtain g where "SyncRegistry_lookup (syncRegistry (snd ?a)) init = Some g"
    by blast
  then have "\<exists>deps. collect_batch gm (snd ?a) init new_ScopeDependencyCollector (Q ?start)
      = Inr deps"
    by (simp add: loadGrammar_start_def collectDependenciesForDep_present)
  then obtain deps where
    "collect_batch gm (snd ?a) init new_ScopeDependencyCollector (Q ?start) = Inr deps" ..
  from iteration_succeeds[OF a this] obtain st1 where
    s: "loadGrammar_iteration gm init ?start = Inr st1" and r: "registry st1 = snd ?a"
    by blast
  have i: "init \<in> seenFullScopeRequests ?start"
    by (simp add: loadGrammar_start_def)
  from iteration_frontier[OF s] i have "\<forall>d\<in>set (Q st1). dep_scopeName d \<noteq> init"
    by blast
  moreover from iteration_seen_mono(1)[OF s] i have "init \<in> seenFullScopeRequests st1"
    by blast
  ultimately have "past_first_round init st1"
    using n' r by (simp add: past_first_round_def)
  with s show ?thesis by blast
qed

lemma resolution_succeeds:
  assumes f: "finite U" "finite K"
    and d: "dependencies_within gm reg U K"
    and n: "never_rejects reg"
    and p: "SyncRegistry_lookup (syncRegistry (snd (await_Promise_all reg [init]))) init \<noteq> None"
  shows "\<exists>st'. loadGrammar_while gm init (loadGrammar_start reg init) = Some (Inr st')
    \<and> Q st' = []"
proof -
  let ?start = "loadGrammar_start reg init"
  have "dependencies_within gm (registry ?start) U K"
    using d by (simp add: loadGrammar_start_def)
  from while_terminates[OF f this, of init] obtain k where
    w: "loadGrammar_while gm init ?start = Some (loadGrammar_iterations gm init k ?start)"
    and e: "\<forall>st'. loadGrammar_iterations gm init k ?start = Inr st' \<longrightarrow> Q st' = []"
    by blast
  from first_round_succeeds[OF n p, of gm] obtain st1 where
    s: "loadGrammar_iteration gm init ?start = Inr st1" and j: "past_first_round init st1"
    by blast
  have "\<exists>st'. loadGrammar_iterations gm init k ?start = Inr st'"
  proof (cases k)
    case 0
    then show ?thesis by simp
  next
    case (Suc m)
    from past_first_round_iterations[OF j, of gm m] show ?thesis
      unfolding Suc using s by simp
  qed
  then obtain st' where "loadGrammar_iterations gm init k ?start = Inr st'" ..
  with w e show ?thesis by simp
qed

text \<open>
  Claim C2. When the grammar of a dependency is absent from the store once the loads of
  its batch have settled: for the initial scope name \<^verbatim>\<open>_collectDependenciesForDep\<close> throws
  the error ``No grammar provided for <initialScopeName>'' and the whole resolution is
  rejected with it; for any other scope name the collector is returned as it was (nothing
  is expanded), and when the initial grammar is present and no load is rejected the
  resolution completes with the handle of the initial scope, whichever other dependencies
  are absent.
\<close>

theorem missing_grammar:
  "(SyncRegistry_lookup (syncRegistry reg) (dep_scopeName dep) = None \<longrightarrow>
      p_collectDependenciesForDep gm reg init result dep
        = (if dep_scopeName dep = init
           then Inl (Error (''No grammar provided for <'' @ init @ ''>''))
           else Inr result))
   \<and> (await_Promise_all reg [init] = (None, reg')
        \<and> SyncRegistry_lookup (syncRegistry reg') init = None \<longrightarrow>
      p_loadGrammar gm reg init initialLanguage embeddedLanguages tokenTypes
        = Some (Inl (Error (''No grammar provided for <'' @ init @ ''>'')), reg'))
   \<and> (finite U \<and> finite K \<and> dependencies_within gm reg U K \<and> never_rejects reg
        \<and> SyncRegistry_lookup (syncRegistry (snd (await_Promise_all reg [init]))) init \<noteq> None
      \<longrightarrow> (\<exists>reg''. p_loadGrammar gm reg init initialLanguage embeddedLanguages tokenTypes
             = Some (Inr (Registry_grammarForScopeName reg'' init initialLanguage
                       embeddedLanguages tokenTypes), reg'')))"
proof (intro conjI impI)
  assume "SyncRegistry_lookup (syncRegistry reg) (dep_scopeName dep) = None"
  then show "p_collectDependenciesForDep gm reg init result dep
        = (if dep_scopeName dep = init
           then Inl (Error (''No grammar provided for <'' @ init @ ''>''))
           else Inr result)"
    by (rule collectDependenciesForDep_absent)
next
  assume "await_Promise_all reg [init] = (None, reg')
        \<and> SyncRegistry_lookup (syncRegistry reg') init = None"
  then show "p_loadGrammar gm reg init initialLanguage embeddedLanguages tokenTypes
        = Some (Inl (Error (''No grammar provided for <'' @ init @ ''>'')), reg')"
    by (intro first_round_fails) simp_all
next
  assume h: "finite U \<and> finite K \<and> dependencies_within gm reg U K \<and> never_rejects reg
        \<and> SyncRegistry_lookup (syncRegistry (snd (await_Promise_all reg [init]))) init \<noteq> None"
  then have "\<exists>st'. loadGrammar_while gm init (loadGrammar_start reg init) = Some (Inr st')
    \<and> Q st' = []"
    by (intro resolution_succeeds[of U K]) simp_all
  then obtain st' where "loadGrammar_while gm init (loadGrammar_start reg init) = Some (Inr st')"
    by blast
  then have "p_loadGrammar gm reg init initialLanguage embeddedLanguages tokenTypes
     = Some (Inr (Registry_grammarForScopeName (registry st') init initialLanguage
                       embeddedLanguages tokenTypes), registry st')"
    by (simp add: p_loadGrammar_def)
  then show "\<exists>reg''. p_loadGrammar gm reg init initialLanguage embeddedLanguages tokenTypes
             = Some (Inr (Registry_grammarForScopeName reg'' init initialLanguage
                       embeddedLanguages tokenTypes), reg'')"
    by blast
qed

lemma example_never_rejects: "never_rejects (new_Registry example_locator)"
  by (simp add: never_rejects_def new_Registry_def example_locator_def)

theorem missing_grammar_witness:
  "p_collectDependenciesForDep example_grammar_ts (new_Registry example_locator) ''source.a''
      new_ScopeDependencyCollector (FullScopeDependency ''source.a'')
     = Inl (Error ''No grammar provided for <source.a>'')
   \<and> p_collectDependenciesForDep example_grammar_ts (new_Registry example_locator) ''source.a''
      new_ScopeDependencyCollector (FullScopeDependency ''source.d'')
     = Inr new_ScopeDependencyCollector
   \<and> map_option fst (p_loadGrammar example_grammar_ts (new_Registry example_locator)
        ''source.x'' 0 None None)
     = Some (Inl (Error ''No grammar provided for <source.x>''))
   \<and> example_grammars ''source.d'' = None
   \<and> (\<exists>reg''. p_loadGrammar example_grammar_ts (new_Registry example_locator) ''source.a''
          0 None None
        = Some (Inr (Registry_grammarForScopeName reg'' ''source.a'' 0 None None), reg''))"
proof -
  let ?reg = "new_Registry example_locator :: ((string \<times> ScopeDependency list) list) Registry"
  let ?U = "{''source.a'', ''source.b'', ''source.c'', ''source.d'', ''source.e''}"
  let ?K = "{''source.c#stringRule''}"
  have l: "SyncRegistry_lookup (syncRegistry ?reg) scope = None" for scope
    by (simp add: SyncRegistry_lookup_def new_Registry_def new_SyncRegistry_def)
  have 1: "p_collectDependenciesForDep example_grammar_ts ?reg ''source.a''
      new_ScopeDependencyCollector (FullScopeDependency ''source.a'')
     = Inl (Error ''No grammar provided for <source.a>'')"
    using missing_grammar[where reg = ?reg and dep = "FullScopeDependency ''source.a''"
        and gm = example_grammar_ts and init = "''source.a''"
        and result = new_ScopeDependencyCollector] l
    by simp
  have 2: "p_collectDependenciesForDep example_grammar_ts ?reg ''source.a''
      new_ScopeDependencyCollector (FullScopeDependency ''source.d'')
     = Inr new_ScopeDependencyCollector"
    using missing_grammar[where reg = ?reg and dep = "FullScopeDependency ''source.d''"
        and gm = example_grammar_ts and init = "''source.a''"
        and result = new_ScopeDependencyCollector] l
    by simp
  have x1: "fst (await_Promise_all ?reg [''source.x'']) = None"
    by code_simp
  have x2: "SyncRegistry_lookup (syncRegistry (snd (await_Promise_all ?reg [''source.x''])))
      ''source.x'' = None"
    by code_simp
  from x1 have x3: "await_Promise_all ?reg [''source.x'']
      = (None, snd (await_Promise_all ?reg [''source.x'']))"
    by (simp add: prod_eq_iff)
  have 3: "map_option fst (p_loadGrammar example_grammar_ts ?reg ''source.x'' 0 None None)
     = Some (Inl (Error ''No grammar provided for <source.x>''))"
    using missing_grammar[where reg = ?reg and gm = example_grammar_ts
        and init = "''source.x''" and reg' = "snd (await_Promise_all ?reg [''source.x''])"
        and initialLanguage = 0 and embeddedLanguages = None and tokenTypes = None] x2 x3
    by simp
  have 4: "example_grammars ''source.d'' = None"
    by (simp add: example_grammars_def)
  have a: "SyncRegistry_lookup (syncRegistry (snd (await_Promise_all ?reg [''source.a''])))
      ''source.a'' \<noteq> None"
    by code_simp
  have 5: "\<exists>reg''. p_loadGrammar example_grammar_ts ?reg ''source.a'' 0 None None
        = Some (Inr (Registry_grammarForScopeName reg'' ''source.a'' 0 None None), reg'')"
    using missing_grammar[where reg = ?reg and gm = example_grammar_ts
        and init = "''source.a''" and initialLanguage = 0 and embeddedLanguages = None
        and tokenTypes = None and U = ?U and K = ?K]
      example_dependencies_within example_never_rejects a
    by simp
  from 1 2 3 4 5 show ?thesis
    by (intro conjI)
qed


section \<open>The default locator and the public \<^verbatim>\<open>addGrammar\<close>\<close>

lemma event_step_locator: "locator (event_step reg ev) = locator reg"
  by (cases ev) (simp_all add: loadSingleGrammar_fields resume_fields addGrammar_fields)

lemma run_events_locator: "locator (run_events reg evs) = locator reg"
  by (induction evs arbitrary: reg) (simp_all add: event_step_locator)

lemma never_rejects_event_step: "never_rejects reg \<Longrightarrow> never_rejects (event_step reg ev)"
proof (cases ev)
  case (Call_loadSingleGrammar scope)
  assume "never_rejects reg"
  then show ?thesis
    unfolding Call_loadSingleGrammar by (simp add: never_rejects_loadSingleGrammar)
next
  case (Resume_doLoadSingleGrammar p)
  assume "never_rejects reg"
  then show ?thesis
    unfolding Resume_doLoadSingleGrammar by (simp add: never_rejects_resume)
next
  case (Call_addGrammar g injs)
  assume "never_rejects reg"
  then show ?thesis
    unfolding Call_addGrammar by (simp add: never_rejects_def addGrammar_fields)
qed

lemma never_rejects_run_events: "never_rejects reg \<Longrightarrow> never_rejects (run_events reg evs)"
  by (induction evs arbitrary: reg) (simp_all add: never_rejects_event_step)

lemma resume_without_grammar:
  assumes "\<forall>scope. loadGrammar (locator reg) scope = Resolves None"
  shows "syncRegistry (p_doLoadSingleGrammar_resume reg p) = syncRegistry reg"
proof (cases "p < length (doLoads reg) \<and> snd (doLoads reg ! p) = Pending")
  case False
  then show ?thesis by (simp add: resume_noop)
next
  case True
  with assms show ?thesis by (simp add: resume_None)
qed

lemma foldl_resume_without_grammar:
  "\<forall>scope. loadGrammar (locator reg) scope = Resolves None \<Longrightarrow>
   syncRegistry (foldl p_doLoadSingleGrammar_resume reg ps) = syncRegistry reg"
  by (induction ps arbitrary: reg) (simp_all add: resume_without_grammar resume_fields)

lemma await_without_grammar:
  "\<forall>scope. loadGrammar (locator reg) scope = Resolves None \<Longrightarrow>
   syncRegistry (snd (await_Promise_all reg scopes)) = syncRegistry reg"
  by (simp add: await_Promise_all_def split_beta Let_def foldl_resume_without_grammar
      loadSingleGrammar_each_fields)

lemma addGrammar_lookup:
  "SyncRegistry_lookup (syncRegistry (snd (Registry_addGrammar reg g injs lang emb))) scope
     = (if scope = scopeName g then Some g else SyncRegistry_lookup (syncRegistry reg) scope)"
  by (simp add: Registry_addGrammar_def Let_def SyncRegistry_lookup_def
      SyncRegistry_addGrammar_def)

lemma event_step_lookup_absent:
  assumes "\<forall>s. loadGrammar (locator reg) s = Resolves None"
    and "SyncRegistry_lookup (syncRegistry reg) scope = None"
    and "\<forall>g injs. ev = Call_addGrammar g injs \<longrightarrow> scopeName g \<noteq> scope"
  shows "SyncRegistry_lookup (syncRegistry (event_step reg ev)) scope = None"
proof (cases ev)
  case (Call_loadSingleGrammar s)
  with assms(2) show ?thesis by (simp add: loadSingleGrammar_fields)
next
  case (Resume_doLoadSingleGrammar p)
  with assms(1,2) show ?thesis by (simp add: resume_without_grammar)
next
  case (Call_addGrammar g injs)
  with assms(2,3) show ?thesis by (simp add: addGrammar_lookup)
qed

lemma run_events_lookup_absent:
  "\<forall>s. loadGrammar (locator reg) s = Resolves None \<Longrightarrow>
   SyncRegistry_lookup (syncRegistry reg) scope = None \<Longrightarrow>
   \<forall>g injs. Call_addGrammar g injs \<in> set evs \<longrightarrow> scopeName g \<noteq> scope \<Longrightarrow>
   SyncRegistry_lookup (syncRegistry (run_events reg evs)) scope = None"
proof (induction evs arbitrary: reg)
  case Nil
  then show ?case by simp
next
  case (Cons ev evs)
  have "SyncRegistry_lookup (syncRegistry (event_step reg ev)) scope = None"
    using Cons.prems by (intro event_step_lookup_absent) auto
  moreover have "\<forall>s. loadGrammar (locator (event_step reg ev)) s = Resolves None"
    using Cons.prems(1) by (simp add: event_step_locator)
  moreover have "\<forall>g injs. Call_addGrammar g injs \<in> set evs \<longrightarrow> scopeName g \<noteq> scope"
    using Cons.prems(3) by simp
  ultimately have "SyncRegistry_lookup (syncRegistry (run_events (event_step reg ev) evs)) scope
      = None"
    by (intro Cons.IH)
  then show ?case by simp
qed

text \<open>
  Claim C9, as amended. The default locator's \<^verbatim>\<open>loadGrammar\<close> returns \<^verbatim>\<open>null\<close> for every
  scope; so on a registry constructed with no options, whatever calls came before, the
  public \<^verbatim>\<open>loadGrammar(scopeName)\<close> is rejected with ``No grammar provided for
  <scopeName>'' for every scope name for which no grammar has been registered with
  \<^verbatim>\<open>addGrammar\<close>.
\<close>

theorem default_registry_loadGrammar:
  assumes "\<forall>g injs. Call_addGrammar g injs \<in> set evs \<longrightarrow> scopeName g \<noteq> scope"
  shows "(\<forall>s. loadGrammar (default_locator :: 'r RegistryOptions) s = Resolves None)
    \<and> (\<exists>reg'. Registry_loadGrammar gm
            (run_events (new_Registry (default_locator :: 'r RegistryOptions)) evs) scope
          = Some (Inl (Error (''No grammar provided for <'' @ scope @ ''>'')), reg'))"
proof -
  let ?new = "new_Registry (default_locator :: 'r RegistryOptions)"
  let ?reg = "run_events ?new evs"
  have d: "\<forall>s. loadGrammar (default_locator :: 'r RegistryOptions) s = Resolves None"
    by (simp add: default_locator_def)
  then have l0: "\<forall>s. loadGrammar (locator ?new) s = Resolves None"
    by (simp add: new_Registry_def)
  then have l: "\<forall>s. loadGrammar (locator ?reg) s = Resolves None"
    by (simp add: run_events_locator)
  have "SyncRegistry_lookup (syncRegistry ?new) scope = None"
    by (simp add: SyncRegistry_lookup_def new_Registry_def new_SyncRegistry_def)
  from run_events_lookup_absent[OF l0 this assms]
  have absent: "SyncRegistry_lookup (syncRegistry ?reg) scope = None" .
  have "never_rejects ?new"
    by (simp add: never_rejects_def new_Registry_def default_locator_def)
  then have "never_rejects ?reg"
    by (rule never_rejects_run_events)
  from never_rejects_await(1)[OF this, of "[scope]"]
  have a: "await_Promise_all ?reg [scope] = (None, snd (await_Promise_all ?reg [scope]))"
    by (simp add: prod_eq_iff)
  have "SyncRegistry_lookup (syncRegistry (snd (await_Promise_all ?reg [scope]))) scope = None"
    using absent by (simp add: await_without_grammar[OF l])
  from first_round_fails[OF a this, of gm 0 None None]
  show ?thesis
    using d unfolding Registry_loadGrammar_def by blast
qed

theorem default_registry_loadGrammar_witness:
  "\<exists>reg'. Registry_loadGrammar example_grammar_ts
       (run_events (new_Registry default_locator) example_default_events) ''source.a''
     = Some (Inl (Error ''No grammar provided for <source.a>''), reg')"
proof -
  have "\<forall>g injs. Call_addGrammar g injs \<in> set example_default_events \<longrightarrow>
      scopeName g \<noteq> ''source.a''"
    by (simp add: example_default_events_def)
  from default_registry_loadGrammar[OF this, of example_grammar_ts]
  show ?thesis
    by simp
qed

theorem default_registry_counterexample:
  "map_option fst
     (Registry_loadGrammar example_grammar_ts
        (snd (Registry_addGrammar (new_Registry default_locator)
                \<lparr>scopeName = ''source.b'', rules = []\<rparr> [] 0 None))
        ''source.b'')
   = Some (Inr \<lparr>grammar_raw = Some \<lparr>scopeName = ''source.b'', rules = []\<rparr>,
                grammar_initialLanguage = 0, grammar_embeddedLanguages = None,
                grammar_tokenTypes = None\<rparr>)"
  by code_simp

text \<open>
  Claim C10. The public \<^verbatim>\<open>addGrammar\<close> stores the grammar under its scope name with the
  injection list given, and returns the handle of that scope name. It makes no load (the
  log of loads, and so of the loader's calls, is as before), leaves the load cache as it
  was, and changes no other entry of the store.
\<close>

theorem addGrammar_frame:
  "ensureGrammarCache (snd (Registry_addGrammar reg rawGrammar injections initialLanguage
        embeddedLanguages)) = ensureGrammarCache reg
   \<and> doLoads (snd (Registry_addGrammar reg rawGrammar injections initialLanguage
        embeddedLanguages)) = doLoads reg
   \<and> locator (snd (Registry_addGrammar reg rawGrammar injections initialLanguage
        embeddedLanguages)) = locator reg
   \<and> rawGrammars (syncRegistry (snd (Registry_addGrammar reg rawGrammar injections
        initialLanguage embeddedLanguages)))
       = (rawGrammars (syncRegistry reg))(scopeName rawGrammar \<mapsto> rawGrammar)
   \<and> injectionGrammars (syncRegistry (snd (Registry_addGrammar reg rawGrammar injections
        initialLanguage embeddedLanguages)))
       = (injectionGrammars (syncRegistry reg))(scopeName rawGrammar \<mapsto> injections)
   \<and> fst (Registry_addGrammar reg rawGrammar injections initialLanguage embeddedLanguages)
       = Registry_grammarForScopeName
           (snd (Registry_addGrammar reg rawGrammar injections initialLanguage
              embeddedLanguages))
           (scopeName rawGrammar) initialLanguage embeddedLanguages None
   \<and> grammar_raw (fst (Registry_addGrammar reg rawGrammar injections initialLanguage
        embeddedLanguages)) = Some rawGrammar"
  by (simp add: Registry_addGrammar_def Let_def SyncRegistry_addGrammar_def
      Registry_grammarForScopeName_def SyncRegistry_grammarForScopeName_def
      SyncRegistry_lookup_def)


section \<open>Injections\<close>






subsection \<open>Counting what was enqueued\<close>

lemma count_list_map_Full:
  "count_list (map FullScopeDependency names) (FullScopeDependency scope)
     = count_list names scope"
  by (induction names) simp_all

lemma count_list_map_Partial:
  "count_list (map (\<lambda>(scope, include). PartialScopeDependency scope include) deps)
     (FullScopeDependency scope) = 0"
  by (induction deps) (simp_all add: split_beta)

lemma count_list_distinct: "distinct xs \<Longrightarrow> count_list xs x = (if x \<in> set xs then 1 else 0)"
  by (induction xs) (auto simp add: count_list_0_iff)

lemma iteration_count_Full:
  assumes "loadGrammar_iteration gm init st = Inr st'"
  shows "count_list (Q st') (FullScopeDependency scope)
    = (if scope \<in> seenFullScopeRequests st' - seenFullScopeRequests st then 1 else 0)"
  using assms
proof (cases rule: iteration_Inr)
  case (1 deps newFull newPartial)
  note sf = 1(3) and q = 1(5) and df = 1(6) and nf = 1(7)
  have "count_list (Q st') (FullScopeDependency scope) = count_list newFull scope"
    unfolding q by (simp add: count_list_map_Full count_list_map_Partial)
  also have "\<dots> = (if scope \<in> set newFull then 1 else 0)"
    using df by (rule count_list_distinct)
  also have "\<dots> = (if scope \<in> seenFullScopeRequests st' - seenFullScopeRequests st then 1 else 0)"
    unfolding nf sf by auto
  finally show ?thesis .
qed

lemma enqueued_count_Full:
  "loadGrammar_iterations gm init n st = Inr stn \<Longrightarrow>
   count_list (enqueued_upto gm init n st) (FullScopeDependency scope)
     = count_list (Q st) (FullScopeDependency scope)
       + (if scope \<in> seenFullScopeRequests stn - seenFullScopeRequests st then 1 else 0)"
proof (induction n arbitrary: st)
  case 0
  then show ?case by simp
next
  case (Suc n)
  from Suc.prems obtain st1 where
    s: "loadGrammar_iteration gm init st = Inr st1"
    and r: "loadGrammar_iterations gm init n st1 = Inr stn"
    by (auto split: sum.splits)
  note m1 = iteration_seen_mono(1)[OF s]
  note m2 = iterations_seen_mono[OF r, THEN conjunct1]
  have "count_list (enqueued_upto gm init (Suc n) st) (FullScopeDependency scope)
      = count_list (Q st) (FullScopeDependency scope)
        + count_list (enqueued_upto gm init n st1) (FullScopeDependency scope)"
    using s by simp
  also have "count_list (enqueued_upto gm init n st1) (FullScopeDependency scope)
      = (if scope \<in> seenFullScopeRequests st1 - seenFullScopeRequests st then 1 else 0)
        + (if scope \<in> seenFullScopeRequests stn - seenFullScopeRequests st1 then 1 else 0)"
    unfolding Suc.IH[OF r] iteration_count_Full[OF s] ..
  also have "\<dots> = (if scope \<in> seenFullScopeRequests stn - seenFullScopeRequests st then 1 else 0)"
    using m1 m2 by auto
  finally show ?case .
qed

lemma enqueued_count_start:
  assumes "loadGrammar_iterations gm init n (loadGrammar_start reg init) = Inr stn"
  shows "count_list (enqueued_upto gm init n (loadGrammar_start reg init))
      (FullScopeDependency scope)
    = (if scope \<in> seenFullScopeRequests stn then 1 else 0)"
proof -
  from iterations_seen_mono[OF assms] have "init \<in> seenFullScopeRequests stn"
    by (auto simp add: loadGrammar_start_def)
  then show ?thesis
    unfolding enqueued_count_Full[OF assms] by (auto simp add: loadGrammar_start_def)
qed

lemma iterations_append:
  "loadGrammar_iterations gm init k st = Inr stk \<Longrightarrow>
   loadGrammar_iterations gm init (k + m) st = loadGrammar_iterations gm init m stk"
proof (induction k arbitrary: st)
  case 0
  then show ?case by simp
next
  case (Suc k)
  then show ?case by (auto split: sum.splits)
qed


subsection \<open>Counting the keys that were enqueued\<close>

lemma enqueued_keys_append:
  "enqueued_keys gm (xs @ ys) = enqueued_keys gm xs @ enqueued_keys gm ys"
  by (induction gm xs rule: enqueued_keys.induct) simp_all

lemma enqueued_keys_map_Full: "enqueued_keys gm (map FullScopeDependency names) = []"
  by (induction names) simp_all

lemma enqueued_keys_map_Partial:
  "enqueued_keys gm (map (\<lambda>(scope, include). PartialScopeDependency scope include) deps)
     = map (partial_key gm) deps"
  by (induction deps) (simp_all add: split_beta partial_key_def)

lemma iteration_count_key:
  assumes "loadGrammar_iteration gm init st = Inr st'"
  shows "count_list (enqueued_keys gm (Q st')) key
    = (if key \<in> seenPartialScopeRequests st' - seenPartialScopeRequests st then 1 else 0)"
  using assms
proof (cases rule: iteration_Inr)
  case (1 deps newFull newPartial)
  note sp = 1(4) and q = 1(5) and dp = 1(8) and np = 1(9)
  have "count_list (enqueued_keys gm (Q st')) key
      = count_list (map (partial_key gm) newPartial) key"
    unfolding q by (simp add: enqueued_keys_append enqueued_keys_map_Full
        enqueued_keys_map_Partial)
  also have "\<dots> = (if key \<in> set (map (partial_key gm) newPartial) then 1 else 0)"
    using dp by (rule count_list_distinct)
  also have "\<dots> = (if key \<in> seenPartialScopeRequests st' - seenPartialScopeRequests st
      then 1 else 0)"
  proof -
    have "partial_key gm ` set newPartial \<inter> seenPartialScopeRequests st = {}"
      using np by blast
    then have "(key \<in> set (map (partial_key gm) newPartial))
        = (key \<in> seenPartialScopeRequests st' - seenPartialScopeRequests st)"
      unfolding sp by auto
    then show ?thesis
      by simp
  qed
  finally show ?thesis .
qed

lemma enqueued_count_key:
  "loadGrammar_iterations gm init n st = Inr stn \<Longrightarrow>
   count_list (enqueued_keys gm (enqueued_upto gm init n st)) key
     = count_list (enqueued_keys gm (Q st)) key
       + (if key \<in> seenPartialScopeRequests stn - seenPartialScopeRequests st then 1 else 0)"
proof (induction n arbitrary: st)
  case 0
  then show ?case by simp
next
  case (Suc n)
  from Suc.prems obtain st1 where
    s: "loadGrammar_iteration gm init st = Inr st1"
    and r: "loadGrammar_iterations gm init n st1 = Inr stn"
    by (auto split: sum.splits)
  note m1 = iteration_seen_mono(2)[OF s]
  note m2 = iterations_seen_mono[OF r, THEN conjunct2]
  have "count_list (enqueued_keys gm (enqueued_upto gm init (Suc n) st)) key
      = count_list (enqueued_keys gm (Q st)) key
        + count_list (enqueued_keys gm (enqueued_upto gm init n st1)) key"
    using s by (simp add: enqueued_keys_append)
  also have "count_list (enqueued_keys gm (enqueued_upto gm init n st1)) key
      = (if key \<in> seenPartialScopeRequests st1 - seenPartialScopeRequests st then 1 else 0)
        + (if key \<in> seenPartialScopeRequests stn - seenPartialScopeRequests st1 then 1 else 0)"
    unfolding Suc.IH[OF r] iteration_count_key[OF s] ..
  also have "\<dots> = (if key \<in> seenPartialScopeRequests stn - seenPartialScopeRequests st
      then 1 else 0)"
    using m1 m2 by auto
  finally show ?case .
qed

lemma enqueued_count_key_start:
  assumes "loadGrammar_iterations gm init n (loadGrammar_start reg init) = Inr stn"
  shows "count_list (enqueued_keys gm (enqueued_upto gm init n (loadGrammar_start reg init))) key
    = (if key \<in> seenPartialScopeRequests stn then 1 else 0)"
  unfolding enqueued_count_key[OF assms] by (simp add: loadGrammar_start_def)

lemma iterations_then_iteration:
  assumes "loadGrammar_iterations gm init i st = Inr sti"
    and "loadGrammar_iterations gm init j sti = Inr stj"
    and "loadGrammar_iteration gm init stj = Inr st'"
  shows "loadGrammar_iterations gm init (i + j + 1) st = Inr st'"
proof -
  have "loadGrammar_iterations gm init (i + (j + 1)) st
      = loadGrammar_iterations gm init (j + 1) sti"
    using assms(1) by (rule iterations_append)
  also have "\<dots> = loadGrammar_iterations gm init 1 stj"
    using assms(2) by (rule iterations_append)
  also have "\<dots> = Inr st'"
    using assms(3) by simp
  finally show ?thesis
    by (simp add: add.assoc)
qed

text \<open>
  Claim C4. The loop starts with \<open>seenFullScopeRequests = {initialScopeName}\<close> and the
  frontier \<open>[Full initialScopeName]\<close>. Both seen-sets only grow. After any number of rounds,
  no dependency whose scope name is by then in \<open>seenFullScopeRequests\<close> is enqueued in any
  later round; a full dependency is enqueued only when its name is new; and a partial
  dependency is enqueued only if its scope is not in \<open>seenFullScopeRequests\<close> and its key
  is not in \<open>seenPartialScopeRequests\<close>, both as they are when it is enqueued. Within a
  round a name or a key that is new is enqueued exactly once, whatever the collector holds
  of it, and over the whole run every full dependency and every key of a partial
  dependency is enqueued exactly once if the name or key has been seen and never
  otherwise.
\<close>

theorem frontier_invariant:
  assumes "loadGrammar_iterations gm init i (loadGrammar_start reg init) = Inr sti"
    and "loadGrammar_iterations gm init j sti = Inr stj"
    and "loadGrammar_iteration gm init stj = Inr st'"
  shows "seenFullScopeRequests (loadGrammar_start reg init) = {init}
    \<and> seenPartialScopeRequests (loadGrammar_start reg init) = {}
    \<and> Q (loadGrammar_start reg init) = [FullScopeDependency init]
    \<and> init \<in> seenFullScopeRequests sti
    \<and> seenFullScopeRequests sti \<subseteq> seenFullScopeRequests stj
    \<and> seenFullScopeRequests stj \<subseteq> seenFullScopeRequests st'
    \<and> seenPartialScopeRequests sti \<subseteq> seenPartialScopeRequests stj
    \<and> seenPartialScopeRequests stj \<subseteq> seenPartialScopeRequests st'
    \<and> (\<forall>d\<in>set (Q st'). dep_scopeName d \<notin> seenFullScopeRequests sti)
    \<and> (\<forall>scope. FullScopeDependency scope \<in> set (Q st') \<longrightarrow>
           scope \<notin> seenFullScopeRequests stj \<and> scope \<in> seenFullScopeRequests st')
    \<and> (\<forall>scope inc. PartialScopeDependency scope inc \<in> set (Q st') \<longrightarrow>
           scope \<notin> seenFullScopeRequests st'
           \<and> toKey gm scope inc \<notin> seenPartialScopeRequests stj
           \<and> toKey gm scope inc \<in> seenPartialScopeRequests st')
    \<and> count_list (Q st') (FullScopeDependency name)
        = (if name \<in> seenFullScopeRequests st' - seenFullScopeRequests stj then 1 else 0)
    \<and> count_list (enqueued_keys gm (Q st')) key
        = (if key \<in> seenPartialScopeRequests st' - seenPartialScopeRequests stj then 1 else 0)
    \<and> count_list (enqueued_upto gm init (i + j + 1) (loadGrammar_start reg init))
          (FullScopeDependency name)
        = (if name \<in> seenFullScopeRequests st' then 1 else 0)
    \<and> count_list (enqueued_keys gm
          (enqueued_upto gm init (i + j + 1) (loadGrammar_start reg init))) key
        = (if key \<in> seenPartialScopeRequests st' then 1 else 0)"
proof -
  have start: "seenFullScopeRequests (loadGrammar_start reg init) = {init}"
    "seenPartialScopeRequests (loadGrammar_start reg init) = {}"
    "Q (loadGrammar_start reg init) = [FullScopeDependency init]"
    by (simp_all add: loadGrammar_start_def)
  from iterations_seen_mono[OF assms(1)] start(1)
  have init: "init \<in> seenFullScopeRequests sti"
    by blast
  note ij = iterations_seen_mono[OF assms(2)]
  note j' = iteration_seen_mono[OF assms(3)]
  note fr = iteration_frontier[OF assms(3)]
  have never: "\<forall>d\<in>set (Q st'). dep_scopeName d \<notin> seenFullScopeRequests sti"
    using fr[THEN conjunct1] ij[THEN conjunct1] by blast
  note run = iterations_then_iteration[OF assms]
  note counts = iteration_count_Full[OF assms(3), of name] iteration_count_key[OF assms(3), of key]
    enqueued_count_start[OF run, of name] enqueued_count_key_start[OF run, of key]
  show ?thesis
    using start init ij j' never fr[THEN conjunct2] counts by (simp only: simp_thms)
qed

theorem frontier_invariant_witness:
  "\<exists>sti st'.
      loadGrammar_iterations example_grammar_ts ''source.a'' 1
        (loadGrammar_start (new_Registry example_locator) ''source.a'') = Inr sti
    \<and> loadGrammar_iteration example_grammar_ts ''source.a'' sti = Inr st'
    \<and> Q sti = [FullScopeDependency ''source.b'', PartialScopeDependency ''source.c'' ''stringRule'']
    \<and> seenFullScopeRequests sti = {''source.a'', ''source.b''}
    \<and> Q st' = [FullScopeDependency ''source.d'']
    \<and> (\<forall>d\<in>set (Q st'). dep_scopeName d \<notin> seenFullScopeRequests sti)
    \<and> count_list (enqueued_upto example_grammar_ts ''source.a'' 2
          (loadGrammar_start (new_Registry example_locator) ''source.a''))
        (FullScopeDependency ''source.b'') = 1"
proof -
  let ?start = "loadGrammar_start (new_Registry example_locator) ''source.a''"
  let ?r1 = "loadGrammar_iterations example_grammar_ts ''source.a'' 1 ?start"
  let ?r2 = "loadGrammar_iteration example_grammar_ts ''source.a'' (projr ?r1)"
  have 1: "\<not> isl ?r1" by code_simp
  have 2: "\<not> isl ?r2" by code_simp
  have q1: "Q (projr ?r1)
      = [FullScopeDependency ''source.b'', PartialScopeDependency ''source.c'' ''stringRule'']"
    by code_simp
  have s1: "seenFullScopeRequests (projr ?r1) = {''source.a'', ''source.b''}"
    by code_simp
  have q2: "Q (projr ?r2) = [FullScopeDependency ''source.d'']"
    by code_simp
  have s2: "''source.b'' \<in> seenFullScopeRequests (projr ?r2)"
    by code_simp
  from 1 have e1: "?r1 = Inr (projr ?r1)" by simp
  from 2 have e2: "?r2 = Inr (projr ?r2)" by simp
  have e0: "loadGrammar_iterations example_grammar_ts ''source.a'' 0 (projr ?r1) = Inr (projr ?r1)"
    by simp
  have two: "1 + 0 + 1 = (2::nat)"
    by simp
  note inv = frontier_invariant[OF e1 e0 e2, where name = "''source.b''", unfolded two]
  from inv have never:
    "\<forall>d\<in>set (Q (projr ?r2)). dep_scopeName d \<notin> seenFullScopeRequests (projr ?r1)"
    by blast
  from inv have "count_list (enqueued_upto example_grammar_ts ''source.a'' 2 ?start)
        (FullScopeDependency ''source.b'')
      = (if ''source.b'' \<in> seenFullScopeRequests (projr ?r2) then 1 else 0)"
    by blast
  with s2 have once: "count_list (enqueued_upto example_grammar_ts ''source.a'' 2 ?start)
        (FullScopeDependency ''source.b'') = 1"
    by (simp only: if_True)
  from e1 e2 q1 s1 q2 never once show ?thesis
    by blast
qed


subsection \<open>Everything seen in full gets loaded\<close>














end
